theory Spec2Isabelle
  imports Main
begin

section \<open>Strings\<close>

text \<open>
  A Python \<open>str\<close> is a sequence of Unicode code points and \<open>len\<close> counts code points.
  The bot formats its messages with the bullet U+2022, which does not fit an 8-bit
  \<^typ>\<open>char\<close>, so a string is modelled as the list of its code points. \<open>py\<close> turns an
  ASCII literal into such a list.
\<close>

type_synonym pystr = "nat list"

definition py :: "string \<Rightarrow> pystr" where
  "py s = map of_char s"

definition LF :: nat where "LF = 10"
definition CR :: nat where "CR = 13"
definition BACKSLASH :: nat where "BACKSLASH = 92"
definition BULLET :: nat where "BULLET = 8226"

text \<open>
  \<open>str.isspace\<close> on one code point: the Unicode white space of CPython
  (\<open>_PyUnicode_IsWhitespace\<close>).
\<close>

definition isspace :: "nat \<Rightarrow> bool" where
  "isspace c \<longleftrightarrow>
     (9 \<le> c \<and> c \<le> 13) \<or> (28 \<le> c \<and> c \<le> 32) \<or> c = 133 \<or> c = 160 \<or> c = 5760 \<or>
     (8192 \<le> c \<and> c \<le> 8202) \<or> c = 8232 \<or> c = 8233 \<or> c = 8239 \<or> c = 8287 \<or> c = 12288"

text \<open>\<open>s.strip()\<close>: leading and trailing white space removed.\<close>

definition lstrip :: "pystr \<Rightarrow> pystr" where
  "lstrip s = dropWhile isspace s"

definition rstrip :: "pystr \<Rightarrow> pystr" where
  "rstrip s = rev (dropWhile isspace (rev s))"

definition strip :: "pystr \<Rightarrow> pystr" where
  "strip s = rstrip (lstrip s)"


section \<open>Deduplication store\<close>

text \<open>
  \<open>SEEN_FILE\<close> is the only file the program touches: the file system is the decoded text of
  that file, or \<open>None\<close> when \<open>os.path.exists\<close> is false. The file is opened in text mode
  with the default \<open>newline=None\<close>: on reading, \<open>\r\n\<close> and a lone \<open>\r\<close> arrive as \<open>\n\<close>;
  on writing, \<open>\n\<close> is written as the platform's line separator, \<open>\n\<close> here.
\<close>

fun universal_newlines :: "pystr \<Rightarrow> pystr" where
  "universal_newlines [] = []"
| "universal_newlines [c] = (if c = CR then [LF] else [c])"
| "universal_newlines (c # d # cs) =
     (if c = CR \<and> d = LF then LF # universal_newlines cs
      else if c = CR then LF # universal_newlines (d # cs)
      else c # universal_newlines (d # cs))"

text \<open>
  Iterating over the open file yields its lines, each with its terminating \<open>\n\<close>; the
  last line has none when the text does not end in \<open>\n\<close>. \<open>cur\<close> is the line read so far.
\<close>

fun file_lines :: "pystr \<Rightarrow> pystr \<Rightarrow> pystr list" where
  "file_lines cur [] = (if cur = [] then [] else [cur])"
| "file_lines cur (c # cs) =
     (if c = LF then (cur @ [c]) # file_lines [] cs else file_lines (cur @ [c]) cs)"

definition load_seen_articles :: "pystr option \<Rightarrow> pystr set" where
  "load_seen_articles fs =
     (case fs of
        Some content \<Rightarrow>
          set (map strip (filter (\<lambda>line. strip line \<noteq> [])
                 (file_lines [] (universal_newlines content))))
      | None \<Rightarrow> {})"

text \<open>
  \<open>save_seen_articles\<close> iterates over a Python set, whose order is unspecified: the model
  takes the order of iteration as the list \<open>urls\<close>, and the result is the new content of
  the file (mode \<open>"w"\<close> truncates it).
\<close>

definition save_seen_articles :: "pystr list \<Rightarrow> pystr option" where
  "save_seen_articles urls = Some (concat (map (\<lambda>url. url @ [LF]) urls))"


section \<open>Text formatter\<close>

subsection \<open>escape_markdown_v2\<close>

text \<open>
  The raw literal \<open>r'_*\[\]()~`>#+\-=|{}.!'\<close>: the three backslashes written in it are
  characters of the string.
\<close>

definition escape_chars :: pystr where
  "escape_chars =
     py ''_*'' @ [BACKSLASH] @ py ''['' @ [BACKSLASH] @ py '']()~`>#+'' @ [BACKSLASH]
       @ py ''-=|{}.!''"

text \<open>
  \<open>re.escape\<close>: a backslash before every character that is special in a regular
  expression (\<open>()[]{}?*+-|^$\.&~#\<close> and the ASCII white space \<open>space \t \n \r \v \f\<close>).
\<close>

definition re_special :: "nat \<Rightarrow> bool" where
  "re_special c \<longleftrightarrow>
     c \<in> set (py ''()[]{}?*+-|^$.&~# '') \<or> c = BACKSLASH \<or> (9 \<le> c \<and> c \<le> 13)"

definition re_escape :: "pystr \<Rightarrow> pystr" where
  "re_escape s = concat (map (\<lambda>c. if re_special c then [BACKSLASH, c] else [c]) s)"

text \<open>
  The pattern is \<open>([\<dots>])\<close> around \<open>re.escape(escape_chars)\<close>: one character class. In the
  body of a class, a backslash followed by a punctuation character stands for that
  character, and any other character for itself. (The body built here holds no range,
  no leading \<open>^\<close> and no letter after a backslash.)
\<close>

fun class_members :: "pystr \<Rightarrow> nat list" where
  "class_members [] = []"
| "class_members [c] = [c]"
| "class_members (c # d # cs) =
     (if c = BACKSLASH then d # class_members cs else c # class_members (d # cs))"

text \<open>
  \<open>re.sub\<close> of a one-class pattern with the replacement \<open>r'\\\1'\<close>: every character of
  the class is replaced by a backslash and itself, the others are copied.
\<close>

definition re_sub_class :: "nat list \<Rightarrow> pystr \<Rightarrow> pystr" where
  "re_sub_class members text =
     concat (map (\<lambda>c. if c \<in> set members then [BACKSLASH, c] else [c]) text)"

text \<open>The argument may be \<open>None\<close> (a JSON null, or a missing key's default).\<close>

definition escape_markdown_v2 :: "pystr option \<Rightarrow> pystr" where
  "escape_markdown_v2 text =
     (case text of
        None \<Rightarrow> []
      | Some t \<Rightarrow>
          if t = [] then []
          else re_sub_class (class_members (re_escape escape_chars)) t)"

text \<open>
  For comparison, the reserved set as the specification lists it and the escaping the
  specification describes.
\<close>

definition reserved_set :: "nat set" where
  "reserved_set = set (py ''_*[]()~`>#+-=|{}.!'')"

definition spec_escapeMarkup :: "pystr \<Rightarrow> pystr" where
  "spec_escapeMarkup t = concat (map (\<lambda>c. if c \<in> reserved_set then [BACKSLASH, c] else [c]) t)"

subsection \<open>strip_html_tags and escape_url\<close>

definition LESS :: nat where "LESS = 60"
definition GREATER :: nat where "GREATER = 62"

text \<open>
  The pattern \<open><[^<]+?>\<close> at a \<open><\<close>: one character other than \<open><\<close>, then as few more
  such characters as possible, then \<open>>\<close>. \<open>tag_end\<close> reads what follows that first
  character and returns how many characters the rest of the match takes, up to and
  including the closing \<open>>\<close>; \<open>None\<close> when a \<open><\<close> or the end of the text comes first.
\<close>

fun tag_end :: "pystr \<Rightarrow> nat option" where
  "tag_end [] = None"
| "tag_end (c # cs) =
     (if c = GREATER then Some 1
      else if c = LESS then None
      else map_option Suc (tag_end cs))"

text \<open>
  \<open>re.sub\<close> with the empty replacement: the text is scanned from the left, a match is
  dropped and the scan goes on behind it, any other character is copied. \<open>skip\<close> counts
  the characters of the current match still to drop.
\<close>

fun re_sub_tags :: "nat \<Rightarrow> pystr \<Rightarrow> pystr" where
  "re_sub_tags skip [] = []"
| "re_sub_tags (Suc skip) (c # cs) = re_sub_tags skip cs"
| "re_sub_tags 0 (c # cs) =
     (if c = LESS then
        (case cs of
           [] \<Rightarrow> [c]
         | d # ds \<Rightarrow>
             if d = LESS then c # re_sub_tags 0 cs
             else (case tag_end ds of
                     Some k \<Rightarrow> re_sub_tags (Suc k) cs
                   | None \<Rightarrow> c # re_sub_tags 0 cs))
      else c # re_sub_tags 0 cs)"

definition strip_html_tags :: "pystr option \<Rightarrow> pystr" where
  "strip_html_tags text = re_sub_tags 0 (case text of None \<Rightarrow> [] | Some t \<Rightarrow> t)"

definition escape_url :: "pystr \<Rightarrow> pystr" where
  "escape_url url = concat (map (\<lambda>c. if c = 41 then py ''%29'' else [c]) url)"


section \<open>The environment and the program state\<close>

text \<open>
  An article of the API's answer. A field is \<open>None\<close> when its key is missing; for \<open>title\<close>
  and \<open>description\<close> also when the value is a JSON null (\<open>escape_markdown_v2\<close> and
  \<open>strip_html_tags\<close> treat both alike). A \<open>url\<close> that is present is a string.
\<close>

record article =
  title :: "pystr option"
  description :: "pystr option"
  url :: "pystr option"

text \<open>The query parameters of the GET request.\<close>

record params =
  q :: pystr
  from_date :: pystr
  sortBy :: pystr
  language :: pystr
  apiKey :: "pystr option"
  pageSize :: nat

text \<open>
  What \<open>requests.get\<close> does: it raises, or it returns a response with a status code and
  a body. The body is not JSON, or it is a JSON object with or without the key
  \<open>articles\<close>.
\<close>

datatype json_body = NotJson | Json "article list option"

datatype http_result = ConnectionFailed | Response nat json_body

datatype error = RequestException | JSONDecodeError

text \<open>The incoming Telegram message a command handler receives.\<close>

record update =
  from_chat :: int
  from_user :: int
  content :: pystr

text \<open>One call of \<open>bot.send_message\<close>.\<close>

record message =
  chat_id :: "pystr option"
  msg_text :: pystr
  parse_mode :: "pystr option"
  disable_web_page_preview :: "bool option"

text \<open>
  The environment: the formatted date \<open>datetime.now().strftime('%d-%m-%Y')\<close>, the two
  environment variables the handlers read, the answer of the news API to the \<open>n\<close>-th
  request of the process, and the order in which a Python set is iterated.
  \<open>time.sleep\<close> is not modelled. The messaging client is taken to accept every message.
\<close>

record world =
  today :: pystr
  CHAT_ID :: "pystr option"
  NEWS_API_KEY :: "pystr option"
  http_get :: "nat \<Rightarrow> params \<Rightarrow> http_result"
  iteration_order :: "pystr set \<Rightarrow> pystr list"

text \<open>
  The state: the two module variables \<open>news_cache\<close> and \<open>seen_articles\<close>, the file
  \<open>SEEN_FILE\<close>, and what the process has done so far: the messages sent, the requests
  issued and the lines printed.
\<close>

record state =
  news_cache :: "pystr \<rightharpoonup> article list"
  seen_articles :: "pystr set"
  seen_file :: "pystr option"
  sent :: "message list"
  requests :: "params list"
  printed :: "pystr list"

definition startup :: "pystr option \<Rightarrow> state" where
  "startup fs =
     \<lparr>news_cache = Map.empty, seen_articles = load_seen_articles fs, seen_file = fs,
      sent = [], requests = [], printed = []\<rparr>"

definition keywords_table :: "(pystr \<times> pystr) list" where
  "keywords_table =
     [(py ''VTI'', py ''US stock market OR SP500 OR US economy OR Federal Reserve''),
      (py ''VWO'', py ''emerging markets OR China economy OR India economy OR developing countries''),
      (py ''TIP'', py ''inflation OR CPI OR TIPS bonds OR US Treasury''),
      (py ''GLD'', py ''gold prices OR precious metals OR gold ETF''),
      (py ''VNQ'', py ''real estate market OR REITs OR commercial real estate OR housing market''),
      (py ''VGIT'', py ''interest rates OR treasury yields OR Federal Reserve OR bond market'')]"


section \<open>News fetcher\<close>

text \<open>The decimal digits of a number, as an f-string formats it.\<close>

fun str_nat :: "nat \<Rightarrow> pystr" where
  "str_nat n = (if n < 10 then [48 + n] else str_nat (n div 10) @ [48 + n mod 10])"

declare str_nat.simps [simp del]

text \<open>The dictionary \<open>params\<close> of the request for a query.\<close>

definition news_params :: "world \<Rightarrow> pystr \<Rightarrow> params" where
  "news_params w news_query =
     \<lparr>q = news_query, from_date = today w, sortBy = py ''relevancy'', language = py ''en'',
      apiKey = NEWS_API_KEY w, pageSize = 2\<rparr>"

text \<open>
  An exception leaves the function with the state reached so far: \<open>Inl (e, s)\<close>.
\<close>

definition get_news :: "world \<Rightarrow> pystr \<Rightarrow> state \<Rightarrow> (error \<times> state) + (article list \<times> state)" where
  "get_news w news_query s =
     (case news_cache s news_query of
        Some cached \<Rightarrow> Inr (cached, s)
      | None \<Rightarrow>
          let s1 = s\<lparr>requests := requests s @ [news_params w news_query]\<rparr>
          in (case http_get w (length (requests s)) (news_params w news_query) of
                ConnectionFailed \<Rightarrow> Inl (RequestException, s1)
              | Response status_code body \<Rightarrow>
                  if status_code = 200 then
                    (case body of
                       NotJson \<Rightarrow> Inl (JSONDecodeError, s1)
                     | Json field \<Rightarrow>
                         let articles = (case field of None \<Rightarrow> [] | Some as \<Rightarrow> as)
                         in Inr (articles, s1\<lparr>news_cache := (news_cache s1)(news_query \<mapsto> articles)\<rparr>))
                  else
                    Inr ([], s1\<lparr>printed := printed s1 @
                                  [py ''Error '' @ str_nat status_code @ py '' for query '' @ news_query]\<rparr>)))"


section \<open>Command handlers\<close>

definition send_message :: "world \<Rightarrow> pystr \<Rightarrow> pystr option \<Rightarrow> bool option \<Rightarrow> state \<Rightarrow> state" where
  "send_message w txt mode preview s =
     s\<lparr>sent := sent s @
          [\<lparr>chat_id = CHAT_ID w, msg_text = txt, parse_mode = mode, disable_web_page_preview = preview\<rparr>]\<rparr>"

definition send_welcome :: "world \<Rightarrow> update \<Rightarrow> state \<Rightarrow> state" where
  "send_welcome w _ s =
     send_message w (py ''To interact with this bot use command: */getNews*'')
       (Some (py ''MarkdownV2'')) (Some True) s"

text \<open>
  \<open>s.rfind(c, start, end)\<close> for a one-character needle and non-negative bounds: the
  highest index in range that holds \<open>c\<close>, or \<open>-1\<close>. \<open>s[:k]\<close> and \<open>s[k:]\<close> count a negative
  \<open>k\<close> from the end.
\<close>

definition rfind :: "pystr \<Rightarrow> nat \<Rightarrow> nat \<Rightarrow> nat \<Rightarrow> int" where
  "rfind s c start end =
     (case filter (\<lambda>i. s ! i = c) (rev [start ..< min end (length s)]) of
        [] \<Rightarrow> - 1
      | i # _ \<Rightarrow> int i)"

definition slice_to :: "pystr \<Rightarrow> int \<Rightarrow> pystr" where
  "slice_to s k = (if k < 0 then take (nat (int (length s) + k)) s else take (nat k) s)"

definition slice_from :: "pystr \<Rightarrow> int \<Rightarrow> pystr" where
  "slice_from s k = (if k < 0 then drop (nat (int (length s) + k)) s else drop (nat k) s)"

text \<open>The text appended for one article.\<close>

definition article_block :: "pystr \<Rightarrow> pystr \<Rightarrow> pystr \<Rightarrow> pystr" where
  "article_block ttl desc u =
     [LF, BULLET] @ py '' *'' @ ttl @ py ''*'' @ [LF] @ py ''  '' @ desc @ [LF]
       @ py ''  [Read more]('' @ escape_url u @ py '')'' @ [LF]"

text \<open>
  The loop over the articles of one ticker, on the variables \<open>etf_message\<close>,
  \<open>seen_for_etf\<close>, \<open>seen_articles\<close> and \<open>has_articles\<close>.
\<close>

fun articles_loop ::
  "article list \<Rightarrow> pystr \<times> pystr set \<times> pystr set \<times> bool \<Rightarrow> pystr \<times> pystr set \<times> pystr set \<times> bool" where
  "articles_loop [] vars = vars"
| "articles_loop (a # rest) (etf_message, seen_for_etf, seen, has_articles) =
     (let ttl = escape_markdown_v2 (title a);
          desc = escape_markdown_v2 (Some (strip_html_tags (description a)));
          u = (case url a of None \<Rightarrow> [] | Some v \<Rightarrow> v)
      in if u \<in> seen \<or> u \<in> seen_for_etf
         then articles_loop rest (etf_message, seen_for_etf, seen, has_articles)
         else articles_loop rest
                (etf_message @ article_block ttl desc u, insert u seen_for_etf, insert u seen, True))"

text \<open>
  The \<open>while\<close> loop that sends a long message in parts. It may run forever, which is the
  value \<open>None\<close>.
\<close>

partial_function (option) split_loop :: "world \<Rightarrow> pystr \<Rightarrow> state \<Rightarrow> (pystr \<times> state) option" where
  "split_loop w etf_message s =
     (if length etf_message > 4000 then
        split_loop w (slice_from etf_message (rfind etf_message LF 0 4000))
          (send_message w (strip (slice_to etf_message (rfind etf_message LF 0 4000)))
             (Some (py ''MarkdownV2'')) (Some True) s)
      else Some (etf_message, s))"

text \<open>What the handler does with a message that holds articles: the loop, then the rest.\<close>

definition send_parts :: "world \<Rightarrow> pystr \<Rightarrow> state \<Rightarrow> state option" where
  "send_parts w etf_message s =
     (case split_loop w etf_message s of
        None \<Rightarrow> None
      | Some (remainder, s') \<Rightarrow>
          if strip remainder \<noteq> []
          then Some (send_message w (strip remainder) (Some (py ''MarkdownV2'')) (Some True) s')
          else Some s')"

text \<open>
  The body of the loop over the tickers, for one entry of the dictionary \<open>keywords\<close>
  (\<open>keywords_table\<close> here).
\<close>

definition ticker_body :: "world \<Rightarrow> pystr \<times> pystr \<Rightarrow> state \<Rightarrow> ((error \<times> state) + state) option" where
  "ticker_body w kv s =
     (case kv of (etf, query) \<Rightarrow>
        (case get_news w query s of
           Inl err \<Rightarrow> Some (Inl err)
         | Inr (articles, s1) \<Rightarrow>
             (case articles_loop articles
                     (py ''*'' @ escape_markdown_v2 (Some etf) @ py ''*'' @ [LF], {},
                      seen_articles s1, False) of
                (etf_message, seen_for_etf, seen, has_articles) \<Rightarrow>
                  if has_articles
                  then map_option Inr (send_parts w etf_message (s1\<lparr>seen_articles := seen\<rparr>))
                  else Some (Inr (s1\<lparr>seen_articles := seen\<rparr>)))))"

fun tickers_loop ::
  "world \<Rightarrow> (pystr \<times> pystr) list \<Rightarrow> state \<Rightarrow> ((error \<times> state) + state) option" where
  "tickers_loop w [] s = Some (Inr s)"
| "tickers_loop w (kv # rest) s =
     (case ticker_body w kv s of
        None \<Rightarrow> None
      | Some (Inl err) \<Rightarrow> Some (Inl err)
      | Some (Inr s') \<Rightarrow> tickers_loop w rest s')"

definition send_news :: "world \<Rightarrow> update \<Rightarrow> state \<Rightarrow> ((error \<times> state) + state) option" where
  "send_news w _ s =
     (let date_str = escape_markdown_v2 (Some (today w));
          s0 = send_message w (py ''*TODAY'' @ [39] @ py ''S NEWS: '' @ date_str @ py ''*'')
                 (Some (py ''MarkdownV2'')) None s
      in (case tickers_loop w keywords_table s0 of
            None \<Rightarrow> None
          | Some (Inl err) \<Rightarrow> Some (Inl err)
          | Some (Inr s1) \<Rightarrow>
              Some (Inr (s1\<lparr>seen_file :=
                             save_seen_articles (iteration_order w (seen_articles s1))\<rparr>))))"


section \<open>Notions used to state the properties\<close>

text \<open>
  A URL the line format of \<open>SEEN_FILE\<close> can hold: it is not empty, \<open>strip\<close> leaves it as it
  is, and it contains no line break.
\<close>

definition storable :: "pystr \<Rightarrow> bool" where
  "storable u \<longleftrightarrow> u \<noteq> [] \<and> strip u = u \<and> LF \<notin> set u \<and> CR \<notin> set u"

text \<open>
  The lines of a text, as \<open>s.split('\n')\<close> gives them, and the texts all of whose lines
  have at most 3998 characters.
\<close>

fun lines_of :: "pystr \<Rightarrow> pystr list" where
  "lines_of [] = [[]]"
| "lines_of (c # cs) =
     (if c = LF then [] # lines_of cs
      else (case lines_of cs of [] \<Rightarrow> [[c]] | l # ls \<Rightarrow> (c # l) # ls))"

definition short_lines :: "pystr \<Rightarrow> bool" where
  "short_lines msg \<longleftrightarrow> (\<forall>l\<in>set (lines_of msg). length l \<le> 3998)"

text \<open>
  The texts sent for a message cut into \<open>pieces\<close>: every piece stripped, the last one
  only when something is left of it.
\<close>

definition chunk_texts :: "pystr list \<Rightarrow> pystr list" where
  "chunk_texts pieces =
     map strip (butlast pieces) @ (if strip (last pieces) = [] then [] else [strip (last pieces)])"

definition markdown_message :: "world \<Rightarrow> pystr \<Rightarrow> message" where
  "markdown_message w txt =
     \<lparr>chat_id = CHAT_ID w, msg_text = txt, parse_mode = Some (py ''MarkdownV2''),
      disable_web_page_preview = Some True\<rparr>"

text \<open>
  An answer of the news API with one article whose title is 4000 letters long, and a
  world in which every request gets that answer.
\<close>

definition long_title_article :: article where
  "long_title_article =
     \<lparr>title = Some (replicate 4000 97), description = None,
      url = Some (py ''http://news.example/a'')\<rparr>"

definition long_title_world :: world where
  "long_title_world =
     \<lparr>today = py ''04-11-2026'', CHAT_ID = Some (py ''1''), NEWS_API_KEY = Some (py ''k''),
      http_get = (\<lambda>n ps. Response 200 (Json (Some [long_title_article]))),
      iteration_order = (\<lambda>S. [])\<rparr>"

definition getNews_command :: update where
  "getNews_command = \<lparr>from_chat = 7, from_user = 7, content = py ''/getNews''\<rparr>"

text \<open>
  The state in which a call leaves the program, whether it returns or raises; and the
  state after a run of calls of \<open>get_news\<close>, one query after the other, where the
  program goes on after a call that raises.
\<close>

definition state_after :: "(error \<times> state) + ('a \<times> state) \<Rightarrow> state" where
  "state_after r = (case r of Inl (err, s) \<Rightarrow> s | Inr (x, s) \<Rightarrow> s)"


definition outcome_state :: "(error \<times> state) + state \<Rightarrow> state" where
  "outcome_state r = (case r of Inl (err, s) \<Rightarrow> s | Inr s \<Rightarrow> s)"

text \<open>A world whose news API answers every request with status 500.\<close>

definition failing_world :: world where
  "failing_world =
     \<lparr>today = py ''04-11-2026'', CHAT_ID = Some (py ''1''), NEWS_API_KEY = Some (py ''k''),
      http_get = (\<lambda>n ps. Response 500 NotJson), iteration_order = (\<lambda>S. [])\<rparr>"

text \<open>
  What the loop over the articles of a ticker computes, stated on lists. \<open>url_of\<close> is
  \<open>a.get('url', '')\<close>; \<open>block_of\<close> is the text appended for an article; \<open>new_articles\<close>
  keeps the articles the loop does not skip, given the URLs seen so far; and
  \<open>ticker_message\<close> is the message assembled for a ticker from the articles kept.
\<close>

definition url_of :: "article \<Rightarrow> pystr" where
  "url_of a = (case url a of None \<Rightarrow> [] | Some v \<Rightarrow> v)"

definition block_of :: "article \<Rightarrow> pystr" where
  "block_of a =
     article_block (escape_markdown_v2 (title a))
       (escape_markdown_v2 (Some (strip_html_tags (description a)))) (url_of a)"

fun new_articles :: "pystr set \<Rightarrow> article list \<Rightarrow> article list" where
  "new_articles seen [] = []"
| "new_articles seen (a # rest) =
     (if url_of a \<in> seen then new_articles seen rest
      else a # new_articles (insert (url_of a) seen) rest)"

definition ticker_message :: "pystr \<Rightarrow> article list \<Rightarrow> pystr" where
  "ticker_message etf inc =
     py ''*'' @ escape_markdown_v2 (Some etf) @ py ''*'' @ [LF] @ concat (map block_of inc)"

text \<open>
  The first message of \<open>send_news\<close>, with the date.
\<close>

definition header_message :: "world \<Rightarrow> message" where
  "header_message w =
     \<lparr>chat_id = CHAT_ID w,
      msg_text = py ''*TODAY'' @ [39] @ py ''S NEWS: '' @ escape_markdown_v2 (Some (today w)) @ py ''*'',
      parse_mode = Some (py ''MarkdownV2''), disable_web_page_preview = None\<rparr>"

text \<open>
  The texts sent for a ticker whose message was assembled from the articles \<open>inc\<close>:
  none when there is no article, otherwise the stripped pieces of a cut of the message.
  \<open>cycle_output\<close> says this of every ticker of a cycle, in order.
\<close>

definition ticker_output :: "pystr \<Rightarrow> article list \<Rightarrow> pystr list \<Rightarrow> bool" where
  "ticker_output etf inc texts \<longleftrightarrow>
     (if inc = [] then texts = []
      else \<exists>pieces. pieces \<noteq> [] \<and> concat pieces = ticker_message etf inc \<and>
             texts = chunk_texts pieces)"

type_synonym ticker_plan = "pystr \<times> article list \<times> article list"

fun cycle_output :: "ticker_plan list \<Rightarrow> pystr list list \<Rightarrow> bool" where
  "cycle_output [] [] = True"
| "cycle_output ((etf, fetched, inc) # rest) (texts # others) =
     (ticker_output etf inc texts \<and> cycle_output rest others)"
| "cycle_output _ _ = False"

text \<open>
  What one run of the loop over the tickers fetches and selects, without the sending:
  for every ticker reached, in the order of the table, its name, the list \<open>get_news\<close>
  returns for its query, and the articles of that list the handler puts into the
  ticker's message. \<open>seen\<close> is the set \<open>seen_articles\<close>, to which the loop adds the URL of
  every article it does not skip. The list ends before the ticker whose call of
  \<open>get_news\<close> raises.
\<close>

fun cycle_plan :: "world \<Rightarrow> (pystr \<times> pystr) list \<Rightarrow> pystr set \<Rightarrow> state \<Rightarrow> ticker_plan list" where
  "cycle_plan w [] seen s = []"
| "cycle_plan w ((etf, query) # rest) seen s =
     (case get_news w query s of
        Inl err \<Rightarrow> []
      | Inr (articles, s1) \<Rightarrow>
          (etf, articles, new_articles seen articles)
            # cycle_plan w rest (seen \<union> url_of ` set articles) s1)"

definition fetched_of :: "ticker_plan \<Rightarrow> article list" where
  "fetched_of p = fst (snd p)"

definition included_of :: "ticker_plan \<Rightarrow> article list" where
  "included_of p = snd (snd p)"

text \<open>
  A world in which the API answers every request with the same single article, and a
  set that holds the URL of that article is iterated as the list of that URL.
\<close>

definition shared_url :: pystr where
  "shared_url = py ''http://news.example/a''"

definition shared_article :: article where
  "shared_article =
     \<lparr>title = Some (py ''Markets''), description = Some (py ''Stocks rose''),
      url = Some shared_url\<rparr>"

definition shared_world :: world where
  "shared_world =
     \<lparr>today = py ''04-11-2026'', CHAT_ID = Some (py ''1''), NEWS_API_KEY = Some (py ''k''),
      http_get = (\<lambda>n ps. Response 200 (Json (Some [shared_article]))),
      iteration_order = (\<lambda>S. if shared_url \<in> S then [shared_url] else [])\<rparr>"

definition start_command :: update where
  "start_command = \<lparr>from_chat = 8, from_user = 9, content = py ''/start''\<rparr>"

text \<open>
  The process: \<open>bot.infinity_polling()\<close> calls \<open>send_welcome\<close> for every \<open>/start\<close> and
  \<open>send_news\<close> for every \<open>/getNews\<close> it receives. The commands are taken to be handled one
  at a time; after a handler that raises, the polling loop goes on with the next command,
  in the state the handler has left; a handler that never returns ends the run, which is
  the value \<open>None\<close>. \<open>run_included\<close> collects the articles put into ticker messages by the
  cycles of a run.
\<close>

datatype command = Start | GetNews

fun run :: "world \<Rightarrow> (command \<times> update) list \<Rightarrow> state \<Rightarrow> state option" where
  "run w [] s = Some s"
| "run w ((Start, m) # rest) s = run w rest (send_welcome w m s)"
| "run w ((GetNews, m) # rest) s =
     (case send_news w m s of
        None \<Rightarrow> None
      | Some r \<Rightarrow> run w rest (outcome_state r))"

fun run_included :: "world \<Rightarrow> (command \<times> update) list \<Rightarrow> state \<Rightarrow> article list" where
  "run_included w [] s = []"
| "run_included w ((Start, m) # rest) s = run_included w rest (send_welcome w m s)"
| "run_included w ((GetNews, m) # rest) s =
     concat (map included_of (cycle_plan w keywords_table (seen_articles s) s)) @
     (case send_news w m s of
        None \<Rightarrow> []
      | Some r \<Rightarrow> run_included w rest (outcome_state r))"


section \<open>Properties of the text formatter\<close>

lemma class_members_escape_chars:
  "set (class_members (re_escape escape_chars)) = insert BACKSLASH reserved_set"
  by (simp add: escape_chars_def re_escape_def re_special_def py_def BACKSLASH_def
      reserved_set_def insert_commute)

lemma escape_markdown_v2_Some:
  "escape_markdown_v2 (Some t) =
     concat (map (\<lambda>c. if c \<in> insert BACKSLASH reserved_set then [BACKSLASH, c] else [c]) t)"
  by (simp add: escape_markdown_v2_def re_sub_class_def class_members_escape_chars)

text \<open>
  Claim C6, as amended. \<open>escape_markdown_v2\<close> puts exactly one backslash before every
  character of the reserved set and before every backslash of the input, copies every
  other character, and maps \<open>None\<close> and the empty string to the empty string. The
  backslash is in the class because the literal \<open>escape_chars\<close> contains it.
\<close>

theorem escape_markdown_v2_escapes:
  "escape_markdown_v2 None = [] \<and> escape_markdown_v2 (Some []) = [] \<and>
   escape_markdown_v2 (Some t) =
     concat (map (\<lambda>c. if c \<in> insert BACKSLASH reserved_set then [BACKSLASH, c] else [c]) t)"
  by (simp add: escape_markdown_v2_Some) (simp add: escape_markdown_v2_def)

text \<open>
  Claim C6 as stated fails on a backslash, which is not in the reserved set of the
  specification and yet is altered: the input of one backslash becomes two.
\<close>

theorem escape_markdown_v2_backslash_counterexample:
  "escape_markdown_v2 (Some [BACKSLASH]) = [BACKSLASH, BACKSLASH] \<and>
   spec_escapeMarkup [BACKSLASH] = [BACKSLASH] \<and>
   escape_markdown_v2 (Some [BACKSLASH]) \<noteq> spec_escapeMarkup [BACKSLASH]"
  by (simp add: escape_markdown_v2_def re_sub_class_def class_members_escape_chars
      spec_escapeMarkup_def reserved_set_def py_def BACKSLASH_def)


section \<open>Properties of the deduplication store\<close>

lemma isspace_LF [simp]: "isspace LF"
  by (simp add: isspace_def LF_def)

lemma rstrip_append_takeWhile: "rstrip t @ rev (takeWhile isspace (rev t)) = t"
proof -
  have "rev (takeWhile isspace (rev t) @ dropWhile isspace (rev t)) = t"
    by simp
  then show ?thesis unfolding rstrip_def by (simp only: rev_append)
qed

lemma strip_ends:
  assumes "strip s \<noteq> []"
  shows "\<not> isspace (hd (strip s))" and "\<not> isspace (last (strip s))"
proof -
  let ?t = "dropWhile isspace s"
  have ne: "dropWhile isspace (rev ?t) \<noteq> []"
    using assms by (simp add: strip_def rstrip_def lstrip_def)
  have "last (strip s) = hd (dropWhile isspace (rev ?t))"
    using ne by (simp add: strip_def rstrip_def lstrip_def last_rev)
  then show "\<not> isspace (last (strip s))"
    using ne hd_dropWhile by metis
  have t: "strip s @ rev (takeWhile isspace (rev ?t)) = ?t"
    using rstrip_append_takeWhile [of ?t] by (simp add: strip_def lstrip_def)
  then have "?t \<noteq> []" using assms by (metis append_is_Nil_conv)
  moreover have "hd (strip s) = hd ?t"
    using t assms by (metis hd_append2)
  ultimately show "\<not> isspace (hd (strip s))"
    using hd_dropWhile by metis
qed

lemma strip_line:
  assumes "u \<noteq> []" "strip u = u"
  shows "strip (u @ [LF]) = u"
proof -
  have h: "\<not> isspace (hd u)" and l: "\<not> isspace (last u)"
    using strip_ends [of u] assms by simp_all
  have "lstrip (u @ [LF]) = u @ [LF]"
    using h assms(1) by (cases u) (simp_all add: lstrip_def)
  moreover have "dropWhile isspace (rev u) = rev u"
  proof (cases "rev u")
    case Nil
    then show ?thesis by simp
  next
    case (Cons a list)
    then have "a = last u" by (metis hd_rev list.sel(1))
    then have "dropWhile isspace (a # list) = a # list" using l by simp
    then show ?thesis unfolding Cons .
  qed
  ultimately show ?thesis
    by (simp add: strip_def rstrip_def)
qed

lemma universal_newlines_id: "CR \<notin> set s \<Longrightarrow> universal_newlines s = s"
  by (induction s rule: universal_newlines.induct) auto

lemma file_lines_line:
  "LF \<notin> set u \<Longrightarrow> file_lines cur (u @ LF # rest) = (cur @ u @ [LF]) # file_lines [] rest"
  by (induction u arbitrary: cur) auto

lemma file_lines_saved:
  "\<forall>u\<in>set urls. LF \<notin> set u \<Longrightarrow>
   file_lines [] (concat (map (\<lambda>url. url @ [LF]) urls)) = map (\<lambda>url. url @ [LF]) urls"
  by (induction urls) (simp_all add: file_lines_line)

lemma load_save_storable:
  assumes a: "\<forall>u\<in>set urls. storable u"
  shows "load_seen_articles (save_seen_articles urls) = set urls"
proof -
  have nocr: "CR \<notin> set (concat (map (\<lambda>url. url @ [LF]) urls))"
    using a by (auto simp: storable_def CR_def LF_def)
  have lines: "file_lines [] (concat (map (\<lambda>url. url @ [LF]) urls)) = map (\<lambda>url. url @ [LF]) urls"
    using a by (intro file_lines_saved) (simp add: storable_def)
  have s: "\<And>u. u \<in> set urls \<Longrightarrow> strip (u @ [LF]) = u \<and> u \<noteq> []"
    using a strip_line by (simp add: storable_def)
  have "map strip (filter (\<lambda>line. strip line \<noteq> []) (map (\<lambda>url. url @ [LF]) urls)) = urls"
    using s by (induction urls) auto
  then show ?thesis
    by (simp add: load_seen_articles_def save_seen_articles_def universal_newlines_id [OF nocr] lines)
qed





section \<open>Properties of the splitting loop\<close>

lemma lines_of_nonempty [simp]: "lines_of s \<noteq> []"
  by (induction s) (auto split: list.splits)

lemma lines_of_append_LF: "lines_of (xs @ LF # ys) = lines_of xs @ lines_of ys"
proof (induction xs)
  case Nil
  then show ?case by simp
next
  case (Cons c xs)
  obtain l ls where l: "lines_of xs = l # ls"
    by (cases "lines_of xs") simp_all
  show ?case using Cons l by simp
qed

lemma lines_of_run_hd:
  "LF \<notin> set r \<Longrightarrow> length r \<le> length (hd (lines_of (r @ b)))"
proof (induction r)
  case Nil
  then show ?case by simp
next
  case (Cons c r)
  obtain l ls where l: "lines_of (r @ b) = l # ls"
    by (cases "lines_of (r @ b)") simp_all
  show ?case using Cons l by simp
qed

lemma lines_of_run:
  "LF \<notin> set r \<Longrightarrow> \<exists>l\<in>set (lines_of (a @ r @ b)). length r \<le> length l"
proof (induction a)
  case Nil
  have "hd (lines_of (r @ b)) \<in> set (lines_of (r @ b))" by simp
  then show ?case using lines_of_run_hd [OF Nil, of b] by auto
next
  case (Cons c a)
  obtain l ls where l: "lines_of (a @ r @ b) = l # ls"
    by (cases "lines_of (a @ r @ b)") simp_all
  from Cons obtain l0 where l0: "l0 \<in> set (l # ls)" "length r \<le> length l0"
    using l by auto
  show ?case
  proof (cases "c = LF")
    case True
    then show ?thesis using l l0 by auto
  next
    case False
    then have eq: "lines_of ((c # a) @ r @ b) = (c # l) # ls" using l by simp
    show ?thesis
    proof (cases "l0 = l")
      case True
      then show ?thesis using eq l0 by auto
    next
      case False
      then show ?thesis using eq l0 by auto
    qed
  qed
qed

lemma rfind_cases:
  "rfind s c start e = - 1 \<and> (\<forall>i. start \<le> i \<and> i < min e (length s) \<longrightarrow> s ! i \<noteq> c) \<or>
   (\<exists>k. rfind s c start e = int k \<and> start \<le> k \<and> k < min e (length s) \<and> s ! k = c \<and>
        (\<forall>i. k < i \<and> i < min e (length s) \<longrightarrow> s ! i \<noteq> c))"
proof (cases "filter (\<lambda>i. s ! i = c) (rev [start ..< min e (length s)])")
  case Nil
  then have "\<forall>i\<in>set (rev [start ..< min e (length s)]). s ! i \<noteq> c"
    by (simp only: filter_empty_conv) 
  then show ?thesis using Nil by (auto simp: rfind_def)
next
  case (Cons k ks)
  then obtain us vs where d: "rev [start ..< min e (length s)] = us @ k # vs"
    "\<forall>u\<in>set us. s ! u \<noteq> c" "s ! k = c"
    by (auto simp: filter_eq_Cons_iff)
  have kin: "k \<in> set (rev [start ..< min e (length s)])" using d(1) by simp
  have "\<forall>i. k < i \<and> i < min e (length s) \<longrightarrow> i \<in> set us"
  proof (intro allI impI)
    fix i assume i: "k < i \<and> i < min e (length s)"
    then have "i \<in> set (rev [start ..< min e (length s)])" using kin by auto
    then have "i \<in> set us \<or> i = k \<or> i \<in> set vs" using d(1) by auto
    moreover have "sorted (rev (us @ k # vs))" using d(1) [symmetric] by simp
    then have "\<forall>v\<in>set vs. v \<le> k" by (auto simp: sorted_append)
    ultimately show "i \<in> set us" using i by auto
  qed
  moreover have "start \<le> k" "k < min e (length s)" using kin by auto
  moreover have "rfind s c start e = int k" using Cons by (simp add: rfind_def)
  ultimately have "rfind s c start e = int k \<and> start \<le> k \<and> k < min e (length s) \<and> s ! k = c \<and>
        (\<forall>i. k < i \<and> i < min e (length s) \<longrightarrow> s ! i \<noteq> c)"
    using d(2,3) by simp
  then show ?thesis by (intro disjI2 exI [of _ k])
qed

lemma split_point:
  assumes "short_lines msg" "4000 < length msg"
  shows "\<exists>k. rfind msg LF 0 4000 = int k \<and> 1 \<le> k \<and> k < 4000 \<and> msg ! k = LF"
proof -
  have ex: "\<exists>i. 1 \<le> i \<and> i < 4000 \<and> msg ! i = LF"
  proof (rule ccontr)
    assume n: "\<not> ?thesis"
    let ?r = "take 3999 (drop 1 msg)"
    have "LF \<notin> set ?r"
    proof
      assume "LF \<in> set ?r"
      then obtain j where j: "j < length ?r" "?r ! j = LF" by (auto simp: in_set_conv_nth)
      then have "msg ! (Suc j) = LF" using assms(2) by simp
      then show False using n j(1) by auto
    qed
    moreover have "msg = take 1 msg @ ?r @ drop 4000 msg"
    proof -
      have "?r @ drop 3999 (drop 1 msg) = drop 1 msg" by (rule append_take_drop_id)
      then have "?r @ drop 4000 msg = drop 1 msg" by simp
      then show ?thesis by (metis append_take_drop_id)
    qed
    ultimately have "\<exists>l\<in>set (lines_of msg). length ?r \<le> length l"
      using lines_of_run [of ?r "take 1 msg" "drop 4000 msg"] by simp
    then obtain l where "l \<in> set (lines_of msg)" "length ?r \<le> length l" by blast
    then show False using assms by (auto simp: short_lines_def)
  qed
  then obtain i where i: "1 \<le> i" "i < 4000" "msg ! i = LF" by blast
  from rfind_cases [of msg LF 0 4000] show ?thesis
  proof (elim disjE conjE exE)
    assume "\<forall>i. 0 \<le> i \<and> i < min 4000 (length msg) \<longrightarrow> msg ! i \<noteq> LF"
    then show ?thesis using i assms(2) by auto
  next
    fix k assume k: "rfind msg LF 0 4000 = int k" "k < min 4000 (length msg)" "msg ! k = LF"
      "\<forall>i. k < i \<and> i < min 4000 (length msg) \<longrightarrow> msg ! i \<noteq> LF"
    have "\<not> k < i"
    proof
      assume "k < i"
      then have "msg ! i \<noteq> LF" using k(4) i(2) assms(2) by simp
      then show False using i(3) by simp
    qed
    then have "i \<le> k" by simp
    then show ?thesis using k i by auto
  qed
qed

lemma short_lines_drop:
  assumes "short_lines msg" "k < length msg" "msg ! k = LF"
  shows "short_lines (drop k msg)"
proof -
  have "msg = take k msg @ LF # drop (Suc k) msg"
    using assms(2,3) id_take_nth_drop by metis
  then have "lines_of msg = lines_of (take k msg) @ lines_of (drop (Suc k) msg)"
    using lines_of_append_LF by metis
  moreover have "drop k msg = LF # drop (Suc k) msg"
    using assms(2,3) Cons_nth_drop_Suc by metis
  ultimately show ?thesis using assms(1) by (auto simp: short_lines_def)
qed

lemma slice_int [simp]: "slice_to s (int k) = take k s" "slice_from s (int k) = drop k s"
  by (simp_all add: slice_to_def slice_from_def)

lemma send_markdown:
  "send_message w txt (Some (py ''MarkdownV2'')) (Some True) s =
     s\<lparr>sent := sent s @ [markdown_message w txt]\<rparr>"
  by (simp add: send_message_def markdown_message_def)

lemma split_loop_pieces:
  "short_lines msg \<Longrightarrow>
   \<exists>pieces. pieces \<noteq> [] \<and> concat pieces = msg \<and> (msg \<noteq> [] \<longrightarrow> hd pieces \<noteq> []) \<and>
     (\<forall>p\<in>set (tl pieces). p \<noteq> [] \<and> hd p = LF) \<and>
     (\<forall>p\<in>set (butlast pieces). length p < 4000) \<and> length (last pieces) \<le> 4000 \<and>
     split_loop w msg s =
       Some (last pieces,
             s\<lparr>sent := sent s @ map (markdown_message w) (map strip (butlast pieces))\<rparr>)"
proof (induction "length msg" arbitrary: msg s rule: less_induct)
  case less
  show ?case
  proof (cases "4000 < length msg")
    case False
    then have "split_loop w msg s = Some (msg, s)"
      by (subst split_loop.simps) simp
    then show ?thesis using False
      by (intro exI [of _ "[msg]"]) simp
  next
    case True
    from split_point [OF less.prems True] obtain k where
      k: "rfind msg LF 0 4000 = int k" "1 \<le> k" "k < 4000" "msg ! k = LF" by blast
    let ?rest = "drop k msg"
    let ?s1 = "s\<lparr>sent := sent s @ [markdown_message w (strip (take k msg))]\<rparr>"
    have klen: "k < length msg" using True k(3) by simp
    have step: "split_loop w msg s = split_loop w ?rest ?s1"
      using True k(1) by (subst split_loop.simps) (simp add: send_markdown)
    have "length ?rest < length msg" using k(2) klen by simp
    moreover have "short_lines ?rest"
      using short_lines_drop [OF less.prems klen k(4)] .
    ultimately obtain ps where ps:
      "ps \<noteq> []" "concat ps = ?rest" "?rest \<noteq> [] \<longrightarrow> hd ps \<noteq> []"
      "\<forall>p\<in>set (tl ps). p \<noteq> [] \<and> hd p = LF"
      "\<forall>p\<in>set (butlast ps). length p < 4000" "length (last ps) \<le> 4000"
      "split_loop w ?rest ?s1 =
         Some (last ps, ?s1\<lparr>sent := sent ?s1 @ map (markdown_message w) (map strip (butlast ps))\<rparr>)"
      using less.hyps [of ?rest ?s1] by blast
    have restne: "?rest \<noteq> []" using klen by simp
    have hdrest: "hd ?rest = LF" using klen k(4) by (simp add: hd_drop_conv_nth)
    obtain p0 pt where p0: "ps = p0 # pt" using ps(1) by (cases ps) auto
    have "p0 \<noteq> []" using ps(3) restne p0 by simp
    moreover have "hd p0 = LF"
    proof -
      have "hd (concat ps) = hd p0" using p0 \<open>p0 \<noteq> []\<close> by simp
      then show ?thesis using ps(2) hdrest by simp
    qed
    ultimately have all: "\<forall>p\<in>set ps. p \<noteq> [] \<and> hd p = LF"
      using ps(4) p0 by simp
    let ?pieces = "take k msg # ps"
    have "concat ?pieces = msg" using ps(2) by simp
    moreover have "hd ?pieces \<noteq> []" using k(2) klen by auto
    moreover have "\<forall>p\<in>set (butlast ?pieces). length p < 4000"
      using ps(1,5) k(3) by simp
    moreover have "length (last ?pieces) \<le> 4000" using ps(1,6) by simp
    moreover have "split_loop w msg s =
       Some (last ?pieces,
             s\<lparr>sent := sent s @ map (markdown_message w) (map strip (butlast ?pieces))\<rparr>)"
      using step ps(7) ps(1) by simp
    ultimately show ?thesis using all
      by (intro exI [of _ ?pieces]) simp
  qed
qed

lemma strip_decomp:
  "s = takeWhile isspace s @ strip s @ rev (takeWhile isspace (rev (dropWhile isspace s)))"
proof -
  have "strip s @ rev (takeWhile isspace (rev (dropWhile isspace s))) = dropWhile isspace s"
    using rstrip_append_takeWhile [of "dropWhile isspace s"] by (simp add: strip_def lstrip_def)
  then show ?thesis by simp
qed

lemma length_strip: "length (strip s) \<le> length s"
proof -
  have "length s = length (takeWhile isspace s) + length (strip s)
          + length (rev (takeWhile isspace (rev (dropWhile isspace s))))"
    using strip_decomp [of s] by (metis length_append add.assoc)
  then show ?thesis by simp
qed

lemma split_loop_stuck:
  assumes "4000 < length m" "rfind m LF 0 4000 = 0"
  shows "split_loop w m s = None"
proof (cases "split_loop w m s")
  case None
  then show ?thesis .
next
  case (Some r)
  have "m \<noteq> m"
  proof (rule split_loop.raw_induct [where P = "\<lambda>w' m' s' r. m' \<noteq> m", OF _ Some])
    fix f :: "world \<Rightarrow> pystr \<Rightarrow> state \<Rightarrow> (pystr \<times> state) option"
    fix w' m' s' r'
    assume IH: "\<And>w m' s y. f w m' s = Some y \<Longrightarrow> m' \<noteq> m"
    assume body: "(if 4000 < length m'
       then f w' (slice_from m' (rfind m' LF 0 4000))
              (send_message w' (strip (slice_to m' (rfind m' LF 0 4000)))
                 (Some (py ''MarkdownV2'')) (Some True) s')
       else Some (m', s')) = Some r'"
    show "m' \<noteq> m"
    proof
      assume e: "m' = m"
      then have "f w' m (send_message w' (strip (slice_to m 0)) (Some (py ''MarkdownV2''))
                   (Some True) s') = Some r'"
        using body assms by (simp add: slice_from_def)
      then show False using IH by blast
    qed
  qed
  then show ?thesis by simp
qed

lemma split_loop_sent:
  assumes "split_loop w msg s = Some (r, s')"
  shows "\<exists>texts. s' = s\<lparr>sent := sent s @ map (markdown_message w) texts\<rparr>"
proof -
  have "\<exists>texts. snd (r, s') = s\<lparr>sent := sent s @ map (markdown_message w) texts\<rparr>"
  proof (rule split_loop.raw_induct
      [where P = "\<lambda>w m s y. \<exists>texts. snd y = s\<lparr>sent := sent s @ map (markdown_message w) texts\<rparr>",
        OF _ assms])
    fix f :: "world \<Rightarrow> pystr \<Rightarrow> state \<Rightarrow> (pystr \<times> state) option"
    fix w m s y
    assume IH: "\<And>w m s y. f w m s = Some y \<Longrightarrow>
        \<exists>texts. snd y = s\<lparr>sent := sent s @ map (markdown_message w) texts\<rparr>"
    assume body: "(if 4000 < length m
       then f w (slice_from m (rfind m LF 0 4000))
              (send_message w (strip (slice_to m (rfind m LF 0 4000)))
                 (Some (py ''MarkdownV2'')) (Some True) s)
       else Some (m, s)) = Some y"
    show "\<exists>texts. snd y = s\<lparr>sent := sent s @ map (markdown_message w) texts\<rparr>"
    proof (cases "4000 < length m")
      case True
      let ?t = "strip (slice_to m (rfind m LF 0 4000))"
      let ?s1 = "s\<lparr>sent := sent s @ [markdown_message w ?t]\<rparr>"
      from body True have "f w (slice_from m (rfind m LF 0 4000)) ?s1 = Some y"
        by (simp add: send_markdown)
      then have "\<exists>texts. snd y = ?s1\<lparr>sent := sent ?s1 @ map (markdown_message w) texts\<rparr>"
        by (rule IH)
      then obtain texts where
        "snd y = ?s1\<lparr>sent := sent ?s1 @ map (markdown_message w) texts\<rparr>" ..
      then have "snd y = s\<lparr>sent := sent s @ map (markdown_message w) (?t # texts)\<rparr>"
        by simp
      then show ?thesis ..
    next
      case False
      then have "y = (m, s)" using body by simp
      then have "snd y = s\<lparr>sent := sent s @ map (markdown_message w) []\<rparr>" by simp
      then show ?thesis ..
    qed
  qed
  then show ?thesis by simp
qed

lemma send_parts_sent:
  assumes "send_parts w msg s = Some s'"
  shows "\<exists>texts. s' = s\<lparr>sent := sent s @ map (markdown_message w) texts\<rparr>"
proof -
  from assms obtain r s1 where r: "split_loop w msg s = Some (r, s1)"
    by (auto simp: send_parts_def split: option.splits)
  from split_loop_sent [OF r] obtain texts where
    t: "s1 = s\<lparr>sent := sent s @ map (markdown_message w) texts\<rparr>" by blast
  show ?thesis
  proof (cases "strip r = []")
    case True
    then have "s' = s1" using assms r by (simp add: send_parts_def)
    then show ?thesis using t by blast
  next
    case False
    then have "s' = s1\<lparr>sent := sent s1 @ [markdown_message w (strip r)]\<rparr>"
      using assms r by (simp add: send_parts_def send_markdown)
    then have "s' = s\<lparr>sent := sent s @ map (markdown_message w) (texts @ [strip r])\<rparr>"
      using t by simp
    then show ?thesis by blast
  qed
qed

lemma send_parts_pieces:
  assumes "short_lines msg"
  shows "\<exists>pieces. pieces \<noteq> [] \<and> concat pieces = msg \<and>
     (\<forall>p\<in>set (tl pieces). p \<noteq> [] \<and> hd p = LF) \<and>
     (\<forall>t\<in>set (chunk_texts pieces). length t \<le> 4000) \<and>
     send_parts w msg s =
       Some (s\<lparr>sent := sent s @ map (markdown_message w) (chunk_texts pieces)\<rparr>)"
proof -
  from split_loop_pieces [OF assms, of w s] obtain ps where ps:
    "ps \<noteq> []" "concat ps = msg"
    "\<forall>p\<in>set (tl ps). p \<noteq> [] \<and> hd p = LF"
    "\<forall>p\<in>set (butlast ps). length p < 4000" "length (last ps) \<le> 4000"
    "split_loop w msg s =
       Some (last ps, s\<lparr>sent := sent s @ map (markdown_message w) (map strip (butlast ps))\<rparr>)"
    by blast
  have "\<forall>p\<in>set ps. length p \<le> 4000"
  proof
    fix p assume "p \<in> set ps"
    then have "p \<in> set (butlast ps) \<or> p = last ps"
      using ps(1) by (metis append_butlast_last_id in_set_conv_decomp_first rotate1.simps(2) set_ConsD set_rotate1)
    then show "length p \<le> 4000" using ps(4,5) by auto
  qed
  then have sl: "\<And>p. p \<in> set ps \<Longrightarrow> length (strip p) \<le> 4000"
    using length_strip order_trans by blast
  have len: "\<forall>t\<in>set (chunk_texts ps). length t \<le> 4000"
  proof
    fix t assume "t \<in> set (chunk_texts ps)"
    then have "(\<exists>p\<in>set (butlast ps). t = strip p) \<or> t = strip (last ps)"
      by (auto simp: chunk_texts_def split: if_splits)
    then show "length t \<le> 4000"
    proof
      assume "\<exists>p\<in>set (butlast ps). t = strip p"
      then obtain p where "p \<in> set (butlast ps)" "t = strip p" by blast
      then show ?thesis using sl [of p] in_set_butlastD by metis
    next
      assume "t = strip (last ps)"
      then show ?thesis using sl [of "last ps"] ps(1) by simp
    qed
  qed
  have "send_parts w msg s =
       Some (s\<lparr>sent := sent s @ map (markdown_message w) (chunk_texts ps)\<rparr>)"
    using ps(6) by (simp add: send_parts_def chunk_texts_def send_markdown)
  then show ?thesis using ps(1,2,3) len by blast
qed

lemma lines_of_no_LF: "LF \<notin> set r \<Longrightarrow> lines_of r = [r]"
  by (induction r) auto

lemma lines_of_wrapped:
  "LF \<notin> set r \<Longrightarrow> lines_of (concat (replicate n (r @ [LF]))) = replicate n r @ [[]]"
proof (induction n)
  case 0
  then show ?case by simp
next
  case (Suc n)
  have "concat (replicate (Suc n) (r @ [LF])) = r @ LF # concat (replicate n (r @ [LF]))"
    by simp
  then show ?case using Suc lines_of_append_LF [of r] by (simp add: lines_of_no_LF)
qed

lemma short_lines_wrapped:
  "LF \<notin> set r \<Longrightarrow> length r \<le> 3998 \<Longrightarrow> short_lines (concat (replicate n (r @ [LF])))"
  by (simp add: short_lines_def lines_of_wrapped)

text \<open>
  Claim C8. On a message all of whose lines have at most 3998 characters the loop returns,
  whatever the state; and when the loop body runs on such a message, what is left for the
  next round is strictly shorter and again has lines of at most 3998 characters, so the
  same holds in every round.
\<close>

theorem split_loop_terminates:
  "short_lines msg \<Longrightarrow>
   (\<exists>r. split_loop w msg s = Some r) \<and>
   (4000 < length msg \<longrightarrow>
      length (slice_from msg (rfind msg LF 0 4000)) < length msg \<and>
      short_lines (slice_from msg (rfind msg LF 0 4000)))"
proof
  assume a: "short_lines msg"
  from split_loop_pieces [OF a, of w s] show "\<exists>r. split_loop w msg s = Some r" by blast
  show "4000 < length msg \<longrightarrow>
      length (slice_from msg (rfind msg LF 0 4000)) < length msg \<and>
      short_lines (slice_from msg (rfind msg LF 0 4000))"
  proof
    assume l: "4000 < length msg"
    from split_point [OF a l] obtain k where
      k: "rfind msg LF 0 4000 = int k" "1 \<le> k" "k < 4000" "msg ! k = LF" by blast
    then have "k < length msg" using l by simp
    then show "length (slice_from msg (rfind msg LF 0 4000)) < length msg \<and>
      short_lines (slice_from msg (rfind msg LF 0 4000))"
      using k short_lines_drop [OF a _ k(4)] by simp
  qed
qed

theorem split_loop_terminates_witness:
  "short_lines (concat (replicate 60 (replicate 79 97 @ [LF]))) \<and>
   (\<forall>w s. \<exists>r. split_loop w (concat (replicate 60 (replicate 79 97 @ [LF]))) s = Some r) \<and>
   4000 < length (concat (replicate 60 (replicate 79 97 @ [LF]))) \<and>
   length (slice_from (concat (replicate 60 (replicate 79 97 @ [LF])))
             (rfind (concat (replicate 60 (replicate 79 97 @ [LF]))) LF 0 4000))
     < length (concat (replicate 60 (replicate 79 97 @ [LF])))"
proof -
  let ?m = "concat (replicate 60 (replicate 79 97 @ [LF]))"
  have s: "short_lines ?m" by (rule short_lines_wrapped) (simp_all add: LF_def)
  have l: "4000 < length ?m" by (simp add: length_concat sum_list_replicate)
  show ?thesis using s l split_loop_terminates [OF s] by blast
qed

text \<open>
  Claim C1, as amended. For a message all of whose lines have at most 3998 characters
  (this covers every assembled message of that kind), the handler cuts the message into
  pieces whose concatenation is the message; every piece after the first begins with the
  newline at which the message was cut, so that no cut falls inside a line; each piece
  differs from its stripped form only by white space at its two ends; the texts sent are
  the stripped pieces in order (the last one only when it is not blank), and none is
  longer than 4000 characters.
\<close>

theorem send_parts_chunks:
  "short_lines msg \<Longrightarrow>
   \<exists>pieces. pieces \<noteq> [] \<and> concat pieces = msg \<and>
     (\<forall>p\<in>set (tl pieces). p \<noteq> [] \<and> hd p = LF) \<and>
     (\<forall>p\<in>set pieces. \<exists>a b. p = a @ strip p @ b \<and> (\<forall>c\<in>set (a @ b). isspace c)) \<and>
     (\<forall>t\<in>set (chunk_texts pieces). length t \<le> 4000) \<and>
     send_parts w msg s =
       Some (s\<lparr>sent := sent s @ map (markdown_message w) (chunk_texts pieces)\<rparr>)"
proof -
  assume a: "short_lines msg"
  have ws: "\<exists>a b. p = a @ strip p @ b \<and> (\<forall>c\<in>set (a @ b). isspace c)" for p
  proof (intro exI conjI)
    show "p = takeWhile isspace p @ strip p @ rev (takeWhile isspace (rev (dropWhile isspace p)))"
      by (rule strip_decomp)
    show "\<forall>c\<in>set (takeWhile isspace p @ rev (takeWhile isspace (rev (dropWhile isspace p)))). isspace c"
      by (auto dest: set_takeWhileD)
  qed
  from send_parts_pieces [OF a, of w s] obtain ps where
    "ps \<noteq> []" "concat ps = msg" "\<forall>p\<in>set (tl ps). p \<noteq> [] \<and> hd p = LF"
    "\<forall>t\<in>set (chunk_texts ps). length t \<le> 4000"
    "send_parts w msg s = Some (s\<lparr>sent := sent s @ map (markdown_message w) (chunk_texts ps)\<rparr>)"
    by blast
  then show ?thesis using ws by blast
qed

theorem send_parts_chunks_witness:
  "short_lines (concat (replicate 60 (replicate 79 97 @ [LF]))) \<and>
   (\<forall>w s. \<exists>pieces. pieces \<noteq> [] \<and> concat pieces = concat (replicate 60 (replicate 79 97 @ [LF])) \<and>
     (\<forall>p\<in>set (tl pieces). p \<noteq> [] \<and> hd p = LF) \<and>
     (\<forall>p\<in>set pieces. \<exists>a b. p = a @ strip p @ b \<and> (\<forall>c\<in>set (a @ b). isspace c)) \<and>
     (\<forall>t\<in>set (chunk_texts pieces). length t \<le> 4000) \<and>
     send_parts w (concat (replicate 60 (replicate 79 97 @ [LF]))) s =
       Some (s\<lparr>sent := sent s @ map (markdown_message w) (chunk_texts pieces)\<rparr>))"
proof -
  let ?m = "concat (replicate 60 (replicate 79 97 @ [LF]))"
  have s: "short_lines ?m" by (rule short_lines_wrapped) (simp_all add: LF_def)
  show ?thesis using s send_parts_chunks [OF s] by blast
qed

lemma rfind_prefix_run:
  assumes "a \<noteq> c" "length xs \<le> e" "e \<le> length xs + n"
  shows "rfind (xs @ replicate n a @ ys) c 0 e = rfind xs c 0 (length xs)"
proof -
  let ?s = "xs @ replicate n a @ ys"
  have m: "min e (length xs + (n + length ys)) = e" using assms(3) by simp
  have "[0 ..< e] = [0 ..< length xs] @ [length xs ..< e]"
    using assms(2) by (metis le0 upt_add_eq_append le_add_diff_inverse)
  moreover have "filter (\<lambda>i. ?s ! i = c) [length xs ..< e] = []"
  proof -
    have "?s ! i \<noteq> c" if "i \<in> set [length xs ..< e]" for i
    proof -
      from that have i: "length xs \<le> i" "i - length xs < n" using assms(3) by auto
      then have "?s ! i = a" by (simp add: nth_append)
      then show ?thesis using assms(1) by simp
    qed
    then show ?thesis by (simp only: filter_empty_conv) blast
  qed
  moreover have "filter (\<lambda>i. ?s ! i = c) [0 ..< length xs] = filter (\<lambda>i. xs ! i = c) [0 ..< length xs]"
    by (rule filter_cong) (simp_all add: nth_append)
  ultimately have "filter (\<lambda>i. ?s ! i = c) (rev [0 ..< e])
      = filter (\<lambda>i. xs ! i = c) (rev [0 ..< length xs])"
    by (simp add: rev_filter [symmetric])
  then show ?thesis by (simp add: rfind_def m)
qed

lemma escape_plain:
  "a \<notin> insert BACKSLASH reserved_set \<Longrightarrow> escape_markdown_v2 (Some (replicate n a)) = replicate n a"
proof -
  assume a: "a \<notin> insert BACKSLASH reserved_set"
  have "concat (map (\<lambda>c. if c \<in> insert BACKSLASH reserved_set then [BACKSLASH, c] else [c])
          (replicate n a)) = replicate n a"
    using a by (induction n) simp_all
  then show ?thesis by (simp add: escape_markdown_v2_Some)
qed

lemma rfind_VTI_head:
  "rfind (py ''*VTI*'' @ [LF, LF, BULLET] @ py '' *'') LF 0 10 = 6"
  by (simp add: rfind_def py_def LF_def BULLET_def upt_rec)

lemma rfind_block_head: "rfind ([LF, BULLET] @ py '' *'') LF 0 4 = 0"
  by (simp add: rfind_def py_def LF_def BULLET_def upt_rec)

lemma long_message_loops:
  "split_loop w (py ''*VTI*'' @ [LF] @ article_block (replicate 4000 97) d u) s = None"
proof -
  let ?post = "py ''*'' @ [LF] @ py ''  '' @ d @ [LF] @ py ''  [Read more]('' @ escape_url u @ py '')'' @ [LF]"
  let ?pre = "py ''*VTI*'' @ [LF, LF, BULLET] @ py '' *''"
  let ?pre' = "[LF, BULLET] @ py '' *''"
  let ?m = "?pre @ replicate 4000 97 @ ?post"
  let ?r = "?pre' @ replicate 4000 97 @ ?post"
  have m: "py ''*VTI*'' @ [LF] @ article_block (replicate 4000 97) d u = ?m"
    by (simp add: article_block_def)
  have lp: "length ?pre = 10" "length ?pre' = 4" by (simp_all add: py_def)
  have r1: "rfind ?m LF 0 4000 = 6"
    using rfind_prefix_run [of 97 LF ?pre 4000 4000 ?post] rfind_VTI_head lp
    by (simp add: LF_def)
  have r2: "rfind ?r LF 0 4000 = 0"
    using rfind_prefix_run [of 97 LF ?pre' 4000 4000 ?post] rfind_block_head lp
    by (simp add: LF_def)
  have d: "slice_from ?m 6 = ?r"
    by (simp add: slice_from_def py_def)
  have "split_loop w ?m s =
        split_loop w ?r (send_message w (strip (slice_to ?m 6)) (Some (py ''MarkdownV2'')) (Some True) s)"
    by (subst split_loop.simps) (simp only: r1 d, simp)
  moreover have "4000 < length ?r" by simp
  ultimately show ?thesis using split_loop_stuck [OF _ r2] m by simp
qed

text \<open>
  Claim C1 as stated fails on an assembled message with a line that is too long. When the
  API answers the first query with one article whose title is 4000 letters, the first
  round of the loop sends the ticker line and leaves a message that begins with a
  newline and has no other newline among its first 4000 characters; from then on
  \<open>rfind\<close> returns 0, the message is never shortened, and the handler does not return.
\<close>

theorem send_news_long_title_counterexample:
  "send_news long_title_world getNews_command (startup None) = None"
proof -
  let ?w = "long_title_world"
  let ?q = "py ''US stock market OR SP500 OR US economy OR Federal Reserve''"
  have g: "\<exists>s1. get_news ?w ?q s = Inr ([long_title_article], s1) \<and> seen_articles s1 = seen_articles s"
    if "news_cache s ?q = None" for s
    using that by (simp add: get_news_def long_title_world_def Let_def)
  have e: "escape_markdown_v2 (Some (py ''VTI'')) = py ''VTI''"
    by (simp add: escape_markdown_v2_Some reserved_set_def py_def BACKSLASH_def)
  have t: "escape_markdown_v2 (Some (replicate 4000 97)) = replicate 4000 97"
    by (rule escape_plain) (simp add: reserved_set_def py_def BACKSLASH_def)
  have "ticker_body ?w (py ''VTI'', ?q) s = None" if c: "news_cache s ?q = None" "seen_articles s = {}" for s
  proof -
    from g [OF c(1)] obtain s1 where s1: "get_news ?w ?q s = Inr ([long_title_article], s1)"
      "seen_articles s1 = {}" using c(2) by auto
    have "send_parts ?w (py ''*'' @ py ''VTI'' @ py ''*'' @ LF # article_block (replicate 4000 97) d u) s' = None"
      for d u s'
      using long_message_loops [of ?w d u s'] by (simp add: send_parts_def py_def)
    then show ?thesis
      using s1 by (simp add: ticker_body_def e t long_title_article_def Let_def)
  qed
  then have "tickers_loop ?w keywords_table s = None" if "news_cache s ?q = None" "seen_articles s = {}" for s
    using that by (simp add: keywords_table_def)
  then show ?thesis
    by (simp add: send_news_def Let_def startup_def send_message_def load_seen_articles_def)
qed


section \<open>The news fetcher and its cache\<close>



lemma get_news_not_200:
  assumes "news_cache s query = None"
    and "http_get w (length (requests s)) (news_params w query) = Response code body"
    and "code \<noteq> 200"
  shows "get_news w query s =
     Inr ([], s\<lparr>requests := requests s @ [news_params w query],
                printed := printed s @
                  [py ''Error '' @ str_nat code @ py '' for query '' @ query]\<rparr>)"
  using assms by (simp add: get_news_def Let_def)

lemma get_news_miss_requests:
  "news_cache s query = None \<Longrightarrow>
   requests (state_after (get_news w query s)) = requests s @ [news_params w query]"
  by (simp add: get_news_def Let_def state_after_def split: http_result.splits json_body.splits)







text \<open>
  Claim C5. On a cache miss answered with a status other than 200, \<open>get_news\<close> prints
  the status and the query and returns the empty list; the cache is unchanged, so the
  next call for that query issues a request again; the body of the ticker loop sends
  no message for that ticker, and the loop goes on with the remaining tickers.
\<close>

theorem get_news_non_200:
  assumes "news_cache s query = None"
    and "http_get w (length (requests s)) (news_params w query) = Response code body"
    and "code \<noteq> 200"
  shows "\<exists>s'. get_news w query s = Inr ([], s') \<and>
     printed s' = printed s @ [py ''Error '' @ str_nat code @ py '' for query '' @ query] \<and>
     news_cache s' = news_cache s \<and>
     requests (state_after (get_news w query s')) = requests s' @ [news_params w query] \<and>
     ticker_body w (etf, query) s = Some (Inr s') \<and>
     sent s' = sent s \<and>
     tickers_loop w ((etf, query) # rest) s = tickers_loop w rest s'"
proof -
  let ?s' = "s\<lparr>requests := requests s @ [news_params w query],
                printed := printed s @
                  [py ''Error '' @ str_nat code @ py '' for query '' @ query]\<rparr>"
  have g: "get_news w query s = Inr ([], ?s')" using assms by (rule get_news_not_200)
  have c: "news_cache ?s' query = None" using assms(1) by simp
  have t: "ticker_body w (etf, query) s = Some (Inr ?s')"
    by (simp add: ticker_body_def g)
  have "requests (state_after (get_news w query ?s')) = requests ?s' @ [news_params w query]"
    using c by (rule get_news_miss_requests)
  with g t show ?thesis by simp
qed

theorem get_news_non_200_witness:
  "news_cache (startup None) (py ''gold'') = None \<and>
   http_get failing_world (length (requests (startup None)))
       (news_params failing_world (py ''gold'')) = Response 500 NotJson \<and>
   (500 :: nat) \<noteq> 200 \<and>
   (\<exists>s'. get_news failing_world (py ''gold'') (startup None) = Inr ([], s') \<and>
     printed s' = printed (startup None) @
        [py ''Error '' @ str_nat 500 @ py '' for query '' @ py ''gold''] \<and>
     news_cache s' = news_cache (startup None) \<and>
     requests (state_after (get_news failing_world (py ''gold'') s'))
        = requests s' @ [news_params failing_world (py ''gold'')] \<and>
     ticker_body failing_world (py ''GLD'', py ''gold'') (startup None) = Some (Inr s') \<and>
     sent s' = sent (startup None) \<and>
     tickers_loop failing_world ((py ''GLD'', py ''gold'') # []) (startup None)
        = tickers_loop failing_world [] s')"
proof -
  have a: "news_cache (startup None) (py ''gold'') = None" by (simp add: startup_def)
  have b: "http_get failing_world (length (requests (startup None)))
       (news_params failing_world (py ''gold'')) = Response 500 NotJson"
    by (simp add: failing_world_def)
  have c: "(500 :: nat) \<noteq> 200" by simp
  from get_news_non_200 [OF a b c, of "py ''GLD''" "[]"] a b c show ?thesis by blast
qed


section \<open>The dispatcher\<close>

lemma new_articles_subset: "set (new_articles seen arts) \<subseteq> set arts"
  by (induction arts arbitrary: seen) auto

lemma new_articles_unseen: "a \<in> set (new_articles seen arts) \<Longrightarrow> url_of a \<notin> seen"
  by (induction arts arbitrary: seen) (auto split: if_splits)

lemma new_articles_urls: "url_of ` set (new_articles seen arts) = url_of ` set arts - seen"
proof (induction arts arbitrary: seen)
  case Nil
  then show ?case by simp
next
  case (Cons a arts)
  show ?case
  proof (cases "url_of a \<in> seen")
    case True
    then show ?thesis using Cons.IH [of seen] by auto
  next
    case False
    then show ?thesis using Cons.IH [of "insert (url_of a) seen"] by auto
  qed
qed

lemma new_articles_distinct: "distinct (map url_of (new_articles seen arts))"
proof (induction arts arbitrary: seen)
  case Nil
  then show ?case by simp
next
  case (Cons a arts)
  show ?case
  proof (cases "url_of a \<in> seen")
    case True
    then show ?thesis using Cons.IH [of seen] by simp
  next
    case False
    have "url_of a \<notin> url_of ` set (new_articles (insert (url_of a) seen) arts)"
    proof
      assume "url_of a \<in> url_of ` set (new_articles (insert (url_of a) seen) arts)"
      then obtain x where x: "x \<in> set (new_articles (insert (url_of a) seen) arts)"
        and e: "url_of a = url_of x" by blast
      from new_articles_unseen [OF x] e show False by simp
    qed
    then show ?thesis using False Cons.IH [of "insert (url_of a) seen"] by simp
  qed
qed

lemma articles_loop_eq:
  "sf \<subseteq> seen \<Longrightarrow>
   articles_loop arts (m, sf, seen, h) =
     (m @ concat (map block_of (new_articles seen arts)),
      sf \<union> url_of ` set (new_articles seen arts),
      seen \<union> url_of ` set arts,
      h \<or> new_articles seen arts \<noteq> [])"
proof (induction arts arbitrary: m sf seen h)
  case Nil
  then show ?case by simp
next
  case (Cons a arts)
  let ?u = "url_of a"
  show ?case
  proof (cases "?u \<in> seen")
    case True
    then have "articles_loop (a # arts) (m, sf, seen, h) = articles_loop arts (m, sf, seen, h)"
      by (simp add: Let_def url_of_def)
    also have "\<dots> = (m @ concat (map block_of (new_articles seen arts)),
      sf \<union> url_of ` set (new_articles seen arts), seen \<union> url_of ` set arts,
      h \<or> new_articles seen arts \<noteq> [])"
      using Cons.prems by (rule Cons.IH)
    finally show ?thesis using True by (simp add: insert_absorb)
  next
    case False
    then have nsf: "?u \<notin> sf" using Cons.prems by auto
    have sub: "insert ?u sf \<subseteq> insert ?u seen" using Cons.prems by auto
    have "articles_loop (a # arts) (m, sf, seen, h) =
        articles_loop arts (m @ block_of a, insert ?u sf, insert ?u seen, True)"
      using False nsf by (simp add: Let_def url_of_def block_of_def)
    also have "\<dots> = ((m @ block_of a) @ concat (map block_of (new_articles (insert ?u seen) arts)),
      insert ?u sf \<union> url_of ` set (new_articles (insert ?u seen) arts),
      insert ?u seen \<union> url_of ` set arts,
      True \<or> new_articles (insert ?u seen) arts \<noteq> [])"
      using sub by (rule Cons.IH)
    finally show ?thesis using False by simp
  qed
qed

lemma slice_append: "slice_to m k @ slice_from m k = m"
  by (simp add: slice_to_def slice_from_def)

lemma split_loop_cut:
  assumes "split_loop w msg s = Some (r, s')"
  shows "\<exists>ps. concat ps @ r = msg \<and>
           s' = s\<lparr>sent := sent s @ map (markdown_message w) (map strip ps)\<rparr>"
proof -
  have "\<exists>ps. concat ps @ fst (r, s') = msg \<and>
           snd (r, s') = s\<lparr>sent := sent s @ map (markdown_message w) (map strip ps)\<rparr>"
  proof (rule split_loop.raw_induct
      [where P = "\<lambda>w m s y. \<exists>ps. concat ps @ fst y = m \<and>
           snd y = s\<lparr>sent := sent s @ map (markdown_message w) (map strip ps)\<rparr>",
        OF _ assms])
    fix f :: "world \<Rightarrow> pystr \<Rightarrow> state \<Rightarrow> (pystr \<times> state) option"
    fix w m s y
    assume IH: "\<And>w m s y. f w m s = Some y \<Longrightarrow>
        \<exists>ps. concat ps @ fst y = m \<and>
           snd y = s\<lparr>sent := sent s @ map (markdown_message w) (map strip ps)\<rparr>"
    assume body: "(if 4000 < length m
       then f w (slice_from m (rfind m LF 0 4000))
              (send_message w (strip (slice_to m (rfind m LF 0 4000)))
                 (Some (py ''MarkdownV2'')) (Some True) s)
       else Some (m, s)) = Some y"
    show "\<exists>ps. concat ps @ fst y = m \<and>
           snd y = s\<lparr>sent := sent s @ map (markdown_message w) (map strip ps)\<rparr>"
    proof (cases "4000 < length m")
      case True
      let ?p = "slice_to m (rfind m LF 0 4000)"
      let ?rest = "slice_from m (rfind m LF 0 4000)"
      let ?s1 = "s\<lparr>sent := sent s @ [markdown_message w (strip ?p)]\<rparr>"
      from body True have "f w ?rest ?s1 = Some y"
        by (simp add: send_markdown)
      then have "\<exists>ps. concat ps @ fst y = ?rest \<and>
           snd y = ?s1\<lparr>sent := sent ?s1 @ map (markdown_message w) (map strip ps)\<rparr>"
        by (rule IH)
      then obtain ps where ps: "concat ps @ fst y = ?rest"
        "snd y = ?s1\<lparr>sent := sent ?s1 @ map (markdown_message w) (map strip ps)\<rparr>" by blast
      have "concat (?p # ps) @ fst y = m" using ps(1) slice_append [of m] by simp
      moreover have "snd y = s\<lparr>sent := sent s @ map (markdown_message w) (map strip (?p # ps))\<rparr>"
        using ps(2) by simp
      ultimately show ?thesis by blast
    next
      case False
      then have "y = (m, s)" using body by simp
      then have "concat [] @ fst y = m \<and>
          snd y = s\<lparr>sent := sent s @ map (markdown_message w) (map strip [])\<rparr>" by simp
      then show ?thesis by blast
    qed
  qed
  then show ?thesis by simp
qed

lemma send_parts_cut:
  assumes "send_parts w msg s = Some s'"
  shows "\<exists>pieces. pieces \<noteq> [] \<and> concat pieces = msg \<and>
           s' = s\<lparr>sent := sent s @ map (markdown_message w) (chunk_texts pieces)\<rparr>"
proof -
  from assms obtain r s1 where r: "split_loop w msg s = Some (r, s1)"
    by (auto simp: send_parts_def split: option.splits)
  from split_loop_cut [OF r] obtain ps where
    ps: "concat ps @ r = msg" "s1 = s\<lparr>sent := sent s @ map (markdown_message w) (map strip ps)\<rparr>"
    by blast
  have c: "concat (ps @ [r]) = msg" using ps(1) by simp
  have "s' = s\<lparr>sent := sent s @ map (markdown_message w) (chunk_texts (ps @ [r]))\<rparr>"
  proof (cases "strip r = []")
    case True
    then have "s' = s1" using assms r by (simp add: send_parts_def)
    then show ?thesis using True ps(2) by (simp add: chunk_texts_def)
  next
    case False
    then have "s' = s1\<lparr>sent := sent s1 @ [markdown_message w (strip r)]\<rparr>"
      using assms r by (simp add: send_parts_def send_markdown)
    then show ?thesis using False ps(2) by (simp add: chunk_texts_def)
  qed
  with c show ?thesis by blast
qed

lemma get_news_Inr_frame:
  "get_news w query s = Inr (arts, s1) \<Longrightarrow>
   seen_articles s1 = seen_articles s \<and> sent s1 = sent s \<and> seen_file s1 = seen_file s"
  by (auto simp: get_news_def Let_def
      split: option.splits http_result.splits json_body.splits if_splits)

lemma get_news_Inl_frame:
  "get_news w query s = Inl (e, s1) \<Longrightarrow>
   seen_articles s1 = seen_articles s \<and> sent s1 = sent s \<and> seen_file s1 = seen_file s"
  by (auto simp: get_news_def Let_def
      split: option.splits http_result.splits json_body.splits if_splits)

lemma get_news_Inr_cong:
  "get_news w query s = Inr (arts, s1) \<Longrightarrow> news_cache t = news_cache s \<Longrightarrow>
   requests t = requests s \<Longrightarrow>
   \<exists>t1. get_news w query t = Inr (arts, t1) \<and> news_cache t1 = news_cache s1 \<and>
      requests t1 = requests s1"
  by (auto simp: get_news_def Let_def
      split: option.splits http_result.splits json_body.splits if_splits)

lemma get_news_Inl_cong:
  "get_news w query s = Inl (e, s1) \<Longrightarrow> news_cache t = news_cache s \<Longrightarrow>
   requests t = requests s \<Longrightarrow> \<exists>t1. get_news w query t = Inl (e, t1)"
  by (auto simp: get_news_def Let_def
      split: option.splits http_result.splits json_body.splits if_splits)

lemma cycle_plan_cong:
  "news_cache t = news_cache s \<Longrightarrow> requests t = requests s \<Longrightarrow>
   cycle_plan w kws seen t = cycle_plan w kws seen s"
proof (induction kws arbitrary: seen s t)
  case Nil
  then show ?case by simp
next
  case (Cons kv kws)
  obtain etf query where kv: "kv = (etf, query)" by (cases kv)
  show ?case
  proof (cases "get_news w query s")
    case (Inl x)
    obtain e s1 where "x = (e, s1)" by (cases x)
    with Inl have g: "get_news w query s = Inl (e, s1)" by simp
    from get_news_Inl_cong [OF g Cons.prems] obtain t1 where
      "get_news w query t = Inl (e, t1)" by blast
    then show ?thesis using g kv by simp
  next
    case (Inr x)
    obtain arts s1 where "x = (arts, s1)" by (cases x)
    with Inr have g: "get_news w query s = Inr (arts, s1)" by simp
    from get_news_Inr_cong [OF g Cons.prems] obtain t1 where
      t1: "get_news w query t = Inr (arts, t1)" "news_cache t1 = news_cache s1"
      "requests t1 = requests s1" by blast
    from Cons.IH [OF t1(2,3)] show ?thesis using g t1(1) kv by simp
  qed
qed

lemma ticker_body_cases:
  assumes "ticker_body w (etf, query) s = Some r"
  shows "(\<exists>e s1. get_news w query s = Inl (e, s1) \<and> r = Inl (e, s1)) \<or>
     (\<exists>arts s1 s2 texts. get_news w query s = Inr (arts, s1) \<and> r = Inr s2 \<and>
        ticker_output etf (new_articles (seen_articles s) arts) texts \<and>
        s2 = s1\<lparr>seen_articles := seen_articles s \<union> url_of ` set arts,
                sent := sent s @ map (markdown_message w) texts\<rparr>)"
proof (cases "get_news w query s")
  case (Inl x)
  obtain e s1 where "x = (e, s1)" by (cases x)
  with Inl have g: "get_news w query s = Inl (e, s1)" by simp
  then have "r = Inl (e, s1)" using assms by (simp add: ticker_body_def)
  with g show ?thesis by blast
next
  case (Inr x)
  obtain arts s1 where "x = (arts, s1)" by (cases x)
  with Inr have g: "get_news w query s = Inr (arts, s1)" by simp
  from get_news_Inr_frame [OF g] have fr: "seen_articles s1 = seen_articles s" "sent s1 = sent s"
    by simp_all
  let ?inc = "new_articles (seen_articles s) arts"
  let ?seen = "seen_articles s \<union> url_of ` set arts"
  let ?s1 = "s1\<lparr>seen_articles := ?seen\<rparr>"
  have loop: "articles_loop arts
        (py ''*'' @ escape_markdown_v2 (Some etf) @ py ''*'' @ [LF], {}, seen_articles s1, False)
      = (ticker_message etf ?inc, {} \<union> url_of ` set ?inc, ?seen, False \<or> ?inc \<noteq> [])"
    using articles_loop_eq [of "{}" "seen_articles s" arts
        "py ''*'' @ escape_markdown_v2 (Some etf) @ py ''*'' @ [LF]" False]
    by (simp add: fr ticker_message_def)
  show ?thesis
  proof (cases "?inc = []")
    case True
    then have "r = Inr ?s1" using assms g loop by (simp add: ticker_body_def)
    moreover have "ticker_output etf ?inc []" using True by (simp add: ticker_output_def)
    moreover have "?s1 = s1\<lparr>seen_articles := ?seen, sent := sent s @ map (markdown_message w) []\<rparr>"
      using fr by simp
    ultimately show ?thesis using g by blast
  next
    case False
    then have "map_option Inr (send_parts w (ticker_message etf ?inc) ?s1) = Some r"
      using assms g loop by (simp add: ticker_body_def)
    then obtain s2 where s2: "send_parts w (ticker_message etf ?inc) ?s1 = Some s2" "r = Inr s2"
      by auto
    from send_parts_cut [OF s2(1)] obtain pieces where
      p: "pieces \<noteq> []" "concat pieces = ticker_message etf ?inc"
      "s2 = ?s1\<lparr>sent := sent ?s1 @ map (markdown_message w) (chunk_texts pieces)\<rparr>" by blast
    have "ticker_output etf ?inc (chunk_texts pieces)"
      using False p(1,2) by (auto simp: ticker_output_def)
    moreover have "s2 = s1\<lparr>seen_articles := ?seen,
        sent := sent s @ map (markdown_message w) (chunk_texts pieces)\<rparr>"
      using p(3) fr by simp
    ultimately show ?thesis using g s2(2) by blast
  qed
qed

lemma tickers_loop_plan:
  assumes "tickers_loop w kws s = Some r"
  shows "\<exists>chunks. cycle_output (cycle_plan w kws (seen_articles s) s) chunks \<and>
     sent (outcome_state r) = sent s @ map (markdown_message w) (concat chunks) \<and>
     seen_articles (outcome_state r) =
       seen_articles s \<union>
       url_of ` set (concat (map fetched_of (cycle_plan w kws (seen_articles s) s))) \<and>
     seen_file (outcome_state r) = seen_file s \<and>
     ((\<exists>s'. r = Inr s') \<longrightarrow> map fst (cycle_plan w kws (seen_articles s) s) = map fst kws)"
  using assms
proof (induction kws arbitrary: s)
  case Nil
  then have "r = Inr s" by simp
  then have "cycle_output (cycle_plan w [] (seen_articles s) s) [] \<and>
     sent (outcome_state r) = sent s @ map (markdown_message w) (concat []) \<and>
     seen_articles (outcome_state r) =
       seen_articles s \<union>
       url_of ` set (concat (map fetched_of (cycle_plan w [] (seen_articles s) s))) \<and>
     seen_file (outcome_state r) = seen_file s \<and>
     ((\<exists>s'. r = Inr s') \<longrightarrow> map fst (cycle_plan w [] (seen_articles s) s) = map fst [])"
    by (simp add: outcome_state_def)
  then show ?case by blast
next
  case (Cons kv kws)
  obtain etf query where kv: "kv = (etf, query)" by (cases kv)
  from Cons.prems obtain r1 where r1: "ticker_body w (etf, query) s = Some r1"
    by (auto simp: kv split: option.splits)
  from ticker_body_cases [OF r1] show ?case
  proof
    assume "\<exists>e s1. get_news w query s = Inl (e, s1) \<and> r1 = Inl (e, s1)"
    then obtain e s1 where g: "get_news w query s = Inl (e, s1)" and e: "r1 = Inl (e, s1)" by blast
    have r: "r = Inl (e, s1)" using Cons.prems r1 e by (simp add: kv)
    from get_news_Inl_frame [OF g] have
      "cycle_output (cycle_plan w (kv # kws) (seen_articles s) s) [] \<and>
       sent (outcome_state r) = sent s @ map (markdown_message w) (concat []) \<and>
       seen_articles (outcome_state r) =
         seen_articles s \<union>
         url_of ` set (concat (map fetched_of (cycle_plan w (kv # kws) (seen_articles s) s))) \<and>
       seen_file (outcome_state r) = seen_file s \<and>
       ((\<exists>s'. r = Inr s') \<longrightarrow>
          map fst (cycle_plan w (kv # kws) (seen_articles s) s) = map fst (kv # kws))"
      using g r by (simp add: kv outcome_state_def)
    then show ?thesis by blast
  next
    assume "\<exists>arts s1 s2 texts. get_news w query s = Inr (arts, s1) \<and> r1 = Inr s2 \<and>
        ticker_output etf (new_articles (seen_articles s) arts) texts \<and>
        s2 = s1\<lparr>seen_articles := seen_articles s \<union> url_of ` set arts,
                sent := sent s @ map (markdown_message w) texts\<rparr>"
    then obtain arts s1 s2 texts where g: "get_news w query s = Inr (arts, s1)"
      and e: "r1 = Inr s2"
      and out: "ticker_output etf (new_articles (seen_articles s) arts) texts"
      and s2: "s2 = s1\<lparr>seen_articles := seen_articles s \<union> url_of ` set arts,
                sent := sent s @ map (markdown_message w) texts\<rparr>" by blast
    let ?seen = "seen_articles s \<union> url_of ` set arts"
    have rest: "tickers_loop w kws s2 = Some r" using Cons.prems r1 e by (simp add: kv)
    have fr: "seen_articles s2 = ?seen" "sent s2 = sent s @ map (markdown_message w) texts"
      "seen_file s2 = seen_file s"
      using s2 get_news_Inr_frame [OF g] by simp_all
    have pl: "cycle_plan w kws ?seen s2 = cycle_plan w kws ?seen s1"
      by (rule cycle_plan_cong) (simp_all add: s2)
    let ?plan' = "cycle_plan w kws ?seen s1"
    from Cons.IH [OF rest] obtain chunks where c:
      "cycle_output ?plan' chunks"
      "sent (outcome_state r) = sent s2 @ map (markdown_message w) (concat chunks)"
      "seen_articles (outcome_state r) = seen_articles s2 \<union> url_of ` set (concat (map fetched_of ?plan'))"
      "seen_file (outcome_state r) = seen_file s2"
      "(\<exists>s'. r = Inr s') \<longrightarrow> map fst ?plan' = map fst kws"
      unfolding fr(1) pl by blast
    have plan: "cycle_plan w (kv # kws) (seen_articles s) s =
        (etf, arts, new_articles (seen_articles s) arts) # ?plan'"
      using g by (simp add: kv)
    have "cycle_output (cycle_plan w (kv # kws) (seen_articles s) s) (texts # chunks)"
      using out c(1) by (simp add: plan)
    moreover have "sent (outcome_state r) = sent s @ map (markdown_message w) (concat (texts # chunks))"
      using c(2) fr(2) by simp
    moreover have "seen_articles (outcome_state r) =
         seen_articles s \<union>
         url_of ` set (concat (map fetched_of (cycle_plan w (kv # kws) (seen_articles s) s)))"
      using c(3) fr(1) by (simp add: plan fetched_of_def image_Un Un_assoc)
    moreover have "seen_file (outcome_state r) = seen_file s" using c(4) fr(3) by simp
    moreover have "(\<exists>s'. r = Inr s') \<longrightarrow>
          map fst (cycle_plan w (kv # kws) (seen_articles s) s) = map fst (kv # kws)"
      unfolding plan using c(5) by (simp add: kv)
    ultimately show ?thesis by blast
  qed
qed

lemma fetched_of_triple [simp]: "fetched_of (etf, fetched, inc) = fetched"
  by (simp add: fetched_of_def)

lemma included_of_triple [simp]: "included_of (etf, fetched, inc) = inc"
  by (simp add: included_of_def)


lemma cycle_plan_unseen:
  "p \<in> set (cycle_plan w kws seen s) \<Longrightarrow> a \<in> set (included_of p) \<Longrightarrow>
   url_of a \<notin> seen \<and> a \<in> set (fetched_of p)"
proof (induction kws arbitrary: seen s)
  case Nil
  then show ?case by simp
next
  case (Cons kv kws)
  obtain etf query where kv: "kv = (etf, query)" by (cases kv)
  show ?case
  proof (cases "get_news w query s")
    case (Inl x)
    then show ?thesis using Cons.prems by (simp add: kv)
  next
    case (Inr x)
    obtain arts s1 where "x = (arts, s1)" by (cases x)
    with Inr have g: "get_news w query s = Inr (arts, s1)" by simp
    from Cons.prems(1) g have
      "p = (etf, arts, new_articles seen arts) \<or>
       p \<in> set (cycle_plan w kws (seen \<union> url_of ` set arts) s1)"
      by (simp add: kv)
    then show ?thesis
    proof
      assume "p = (etf, arts, new_articles seen arts)"
      then show ?thesis
        using Cons.prems(2) new_articles_unseen [of a seen arts] new_articles_subset [of seen arts]
        by auto
    next
      assume "p \<in> set (cycle_plan w kws (seen \<union> url_of ` set arts) s1)"
      from Cons.IH [OF this Cons.prems(2)] show ?thesis by simp
    qed
  qed
qed

lemma cycle_plan_urls:
  "url_of ` set (concat (map included_of (cycle_plan w kws seen s))) =
   url_of ` set (concat (map fetched_of (cycle_plan w kws seen s))) - seen"
proof (induction kws arbitrary: seen s)
  case Nil
  then show ?case by simp
next
  case (Cons kv kws)
  obtain etf query where kv: "kv = (etf, query)" by (cases kv)
  show ?case
  proof (cases "get_news w query s")
    case (Inl x)
    then show ?thesis by (simp add: kv)
  next
    case (Inr x)
    obtain arts s1 where "x = (arts, s1)" by (cases x)
    with Inr have g: "get_news w query s = Inr (arts, s1)" by simp
    let ?plan = "cycle_plan w kws (seen \<union> url_of ` set arts) s1"
    have pl: "cycle_plan w (kv # kws) seen s = (etf, arts, new_articles seen arts) # ?plan"
      using g by (simp add: kv)
    have "url_of ` set (concat (map included_of ?plan)) =
      url_of ` set (concat (map fetched_of ?plan)) - (seen \<union> url_of ` set arts)"
      by (rule Cons.IH)
    then show ?thesis
      unfolding pl using new_articles_urls [of seen arts]
      by (simp add: image_Un) blast
  qed
qed

lemma cycle_plan_distinct:
  "distinct (map url_of (concat (map included_of (cycle_plan w kws seen s))))"
proof (induction kws arbitrary: seen s)
  case Nil
  then show ?case by simp
next
  case (Cons kv kws)
  obtain etf query where kv: "kv = (etf, query)" by (cases kv)
  show ?case
  proof (cases "get_news w query s")
    case (Inl x)
    then show ?thesis by (simp add: kv)
  next
    case (Inr x)
    obtain arts s1 where "x = (arts, s1)" by (cases x)
    with Inr have g: "get_news w query s = Inr (arts, s1)" by simp
    let ?plan = "cycle_plan w kws (seen \<union> url_of ` set arts) s1"
    have pl: "cycle_plan w (kv # kws) seen s = (etf, arts, new_articles seen arts) # ?plan"
      using g by (simp add: kv)
    have d1: "distinct (map url_of (new_articles seen arts))" by (rule new_articles_distinct)
    have d2: "distinct (map url_of (concat (map included_of ?plan)))" by (rule Cons.IH)
    have "url_of ` set (new_articles seen arts) \<subseteq> url_of ` set arts"
      using new_articles_urls [of seen arts] by blast
    moreover have "url_of ` set (concat (map included_of ?plan)) \<inter> url_of ` set arts = {}"
      using cycle_plan_urls [of w kws "seen \<union> url_of ` set arts" s1] by blast
    ultimately have d3: "url_of ` set (new_articles seen arts) \<inter>
        url_of ` set (concat (map included_of ?plan)) = {}" by blast
    show ?thesis unfolding pl using d1 d2 d3 by simp
  qed
qed

lemma cycle_plan_first:
  "i < length (cycle_plan w kws seen s) \<Longrightarrow>
   u \<in> url_of ` set (fetched_of (cycle_plan w kws seen s ! i)) \<Longrightarrow>
   u \<notin> seen \<Longrightarrow>
   (\<And>l. l < i \<Longrightarrow> u \<notin> url_of ` set (fetched_of (cycle_plan w kws seen s ! l))) \<Longrightarrow>
   u \<in> url_of ` set (included_of (cycle_plan w kws seen s ! i))"
proof (induction kws arbitrary: seen s i)
  case Nil
  then show ?case by simp
next
  case (Cons kv kws)
  obtain etf query where kv: "kv = (etf, query)" by (cases kv)
  show ?case
  proof (cases "get_news w query s")
    case (Inl x)
    then show ?thesis using Cons.prems(1) by (simp add: kv)
  next
    case (Inr x)
    obtain arts s1 where "x = (arts, s1)" by (cases x)
    with Inr have g: "get_news w query s = Inr (arts, s1)" by simp
    let ?plan = "cycle_plan w kws (seen \<union> url_of ` set arts) s1"
    have pl: "cycle_plan w (kv # kws) seen s = (etf, arts, new_articles seen arts) # ?plan"
      using g by (simp add: kv)
    show ?thesis
    proof (cases i)
      case 0
      then have "u \<in> url_of ` set arts" using Cons.prems(2) by (simp add: pl)
      then have "u \<in> url_of ` set (new_articles seen arts)"
        using Cons.prems(3) new_articles_urls [of seen arts] by blast
      then show ?thesis using 0 by (simp add: pl)
    next
      case (Suc i')
      have "u \<notin> url_of ` set (fetched_of (cycle_plan w (kv # kws) seen s ! 0))"
        using Cons.prems(4) [of 0] Suc by simp
      then have n: "u \<notin> seen \<union> url_of ` set arts"
        using Cons.prems(3) by (simp add: pl)
      have "u \<in> url_of ` set (included_of (?plan ! i'))"
      proof (rule Cons.IH [OF _ _ n])
        show "i' < length ?plan" using Cons.prems(1) Suc by (simp add: pl)
        show "u \<in> url_of ` set (fetched_of (?plan ! i'))"
          using Cons.prems(2) Suc by (simp add: pl)
        show "u \<notin> url_of ` set (fetched_of (?plan ! l))" if "l < i'" for l
          using Cons.prems(4) [of "Suc l"] that Suc by (simp add: pl)
      qed
      then show ?thesis using Suc by (simp add: pl)
    qed
  qed
qed

lemma send_news_plan:
  assumes "send_news w m s = Some r"
  shows "\<exists>chunks. cycle_output (cycle_plan w keywords_table (seen_articles s) s) chunks \<and>
     sent (outcome_state r) = sent s @ header_message w # map (markdown_message w) (concat chunks) \<and>
     seen_articles (outcome_state r) =
       seen_articles s \<union>
       url_of ` set (concat (map fetched_of (cycle_plan w keywords_table (seen_articles s) s))) \<and>
     ((\<exists>s'. r = Inr s') \<longrightarrow>
        map fst (cycle_plan w keywords_table (seen_articles s) s) = map fst keywords_table \<and>
        seen_file (outcome_state r) =
          save_seen_articles (iteration_order w (seen_articles (outcome_state r))))"
proof -
  let ?s0 = "s\<lparr>sent := sent s @ [header_message w]\<rparr>"
  have s0: "send_message w (py ''*TODAY'' @ 39 # py ''S NEWS: '' @ escape_markdown_v2 (Some (today w)) @ py ''*'')
                 (Some (py ''MarkdownV2'')) None s = ?s0"
    by (simp add: send_message_def header_message_def)
  from assms obtain r0 where r0: "tickers_loop w keywords_table ?s0 = Some r0"
    by (auto simp: send_news_def Let_def s0 split: option.splits)
  have pl: "cycle_plan w keywords_table (seen_articles s) ?s0 =
      cycle_plan w keywords_table (seen_articles s) s"
    by (rule cycle_plan_cong) simp_all
  let ?plan = "cycle_plan w keywords_table (seen_articles s) s"
  from tickers_loop_plan [OF r0] obtain chunks where c:
    "cycle_output ?plan chunks"
    "sent (outcome_state r0) = sent ?s0 @ map (markdown_message w) (concat chunks)"
    "seen_articles (outcome_state r0) = seen_articles s \<union> url_of ` set (concat (map fetched_of ?plan))"
    "seen_file (outcome_state r0) = seen_file ?s0"
    "(\<exists>s'. r0 = Inr s') \<longrightarrow> map fst ?plan = map fst keywords_table"
    using pl by auto
  have r: "r = (case r0 of Inl err \<Rightarrow> Inl err
      | Inr s1 \<Rightarrow> Inr (s1\<lparr>seen_file := save_seen_articles (iteration_order w (seen_articles s1))\<rparr>))"
    using assms r0 by (cases r0) (auto simp: send_news_def Let_def s0)
  have o1: "sent (outcome_state r) = sent (outcome_state r0)"
    "seen_articles (outcome_state r) = seen_articles (outcome_state r0)"
    using r by (auto simp: outcome_state_def split: sum.splits)
  have o2: "(\<exists>s'. r = Inr s') \<longrightarrow> (\<exists>s'. r0 = Inr s') \<and>
      seen_file (outcome_state r) =
          save_seen_articles (iteration_order w (seen_articles (outcome_state r)))"
    using r by (auto simp: outcome_state_def split: sum.splits)
  have "sent (outcome_state r) = sent s @ header_message w # map (markdown_message w) (concat chunks)"
    using c(2) o1 by simp
  then show ?thesis using c(1,3,5) o1 o2 by auto
qed

lemma lines_of_length: "l \<in> set (lines_of s) \<Longrightarrow> length l \<le> length s"
proof (induction s arbitrary: l)
  case Nil
  then show ?case by simp
next
  case (Cons c cs)
  show ?case
  proof (cases "c = LF")
    case True
    then show ?thesis using Cons by (auto dest: Cons.IH)
  next
    case False
    obtain l0 ls where ls: "lines_of cs = l0 # ls" by (cases "lines_of cs") simp_all
    then have "l = c # l0 \<or> l \<in> set ls" using Cons.prems False by simp
    then show ?thesis
    proof
      assume "l = c # l0"
      then show ?thesis using Cons.IH [of l0] ls by simp
    next
      assume "l \<in> set ls"
      then show ?thesis using Cons.IH [of l] ls by simp
    qed
  qed
qed

lemma short_lines_short: "length s \<le> 3998 \<Longrightarrow> short_lines s"
  using lines_of_length [of _ s] by (fastforce simp: short_lines_def)

lemma ticker_body_returns:
  assumes g: "get_news w query s = Inr (arts, s1)"
    and sl: "short_lines (ticker_message etf (new_articles (seen_articles s) arts))"
  shows "\<exists>s2. ticker_body w (etf, query) s = Some (Inr s2) \<and>
     news_cache s2 = news_cache s1 \<and> requests s2 = requests s1 \<and>
     seen_articles s2 = seen_articles s \<union> url_of ` set arts"
proof -
  from get_news_Inr_frame [OF g] have fr: "seen_articles s1 = seen_articles s" by simp
  let ?inc = "new_articles (seen_articles s) arts"
  let ?seen = "seen_articles s \<union> url_of ` set arts"
  let ?s1 = "s1\<lparr>seen_articles := ?seen\<rparr>"
  have loop: "articles_loop arts
        (py ''*'' @ escape_markdown_v2 (Some etf) @ py ''*'' @ [LF], {}, seen_articles s1, False)
      = (ticker_message etf ?inc, {} \<union> url_of ` set ?inc, ?seen, False \<or> ?inc \<noteq> [])"
    using articles_loop_eq [of "{}" "seen_articles s" arts
        "py ''*'' @ escape_markdown_v2 (Some etf) @ py ''*'' @ [LF]" False]
    by (simp add: fr ticker_message_def)
  show ?thesis
  proof (cases "?inc = []")
    case True
    then have "ticker_body w (etf, query) s = Some (Inr ?s1)"
      using g loop by (simp add: ticker_body_def)
    then show ?thesis by simp
  next
    case False
    from send_parts_pieces [OF sl, of w ?s1] obtain pieces where
      p: "send_parts w (ticker_message etf ?inc) ?s1 =
        Some (?s1\<lparr>sent := sent ?s1 @ map (markdown_message w) (chunk_texts pieces)\<rparr>)"
      by blast
    have "ticker_body w (etf, query) s =
        Some (Inr (?s1\<lparr>sent := sent ?s1 @ map (markdown_message w) (chunk_texts pieces)\<rparr>))"
      using False g loop p by (simp add: ticker_body_def)
    then show ?thesis by simp
  qed
qed

lemma tickers_loop_ends:
  assumes "\<forall>p\<in>set (cycle_plan w kws (seen_articles s) s).
           short_lines (ticker_message (fst p) (included_of p))"
  shows "\<exists>r. tickers_loop w kws s = Some r \<and>
     (map fst (cycle_plan w kws (seen_articles s) s) = map fst kws \<longrightarrow> (\<exists>s'. r = Inr s'))"
  using assms
proof (induction kws arbitrary: s)
  case Nil
  then show ?case by simp
next
  case (Cons kv kws)
  obtain etf query where kv: "kv = (etf, query)" by (cases kv)
  show ?case
  proof (cases "get_news w query s")
    case (Inl x)
    then show ?thesis by (simp add: kv ticker_body_def)
  next
    case (Inr x)
    obtain arts s1 where "x = (arts, s1)" by (cases x)
    with Inr have g: "get_news w query s = Inr (arts, s1)" by simp
    let ?seen = "seen_articles s \<union> url_of ` set arts"
    let ?plan = "cycle_plan w kws ?seen s1"
    have pl: "cycle_plan w (kv # kws) (seen_articles s) s =
        (etf, arts, new_articles (seen_articles s) arts) # ?plan"
      using g by (simp add: kv)
    have "short_lines (ticker_message etf (new_articles (seen_articles s) arts))"
      using Cons.prems unfolding pl by simp
    from ticker_body_returns [OF g this] obtain s2 where
      s2: "ticker_body w (etf, query) s = Some (Inr s2)" "news_cache s2 = news_cache s1"
      "requests s2 = requests s1" "seen_articles s2 = ?seen" by blast
    have pl2: "cycle_plan w kws (seen_articles s2) s2 = ?plan"
      unfolding s2(4) using s2(2,3) by (rule cycle_plan_cong)
    have "\<exists>r. tickers_loop w kws s2 = Some r \<and>
      (map fst (cycle_plan w kws (seen_articles s2) s2) = map fst kws \<longrightarrow> (\<exists>s'. r = Inr s'))"
    proof (rule Cons.IH)
      show "\<forall>p\<in>set (cycle_plan w kws (seen_articles s2) s2).
           short_lines (ticker_message (fst p) (included_of p))"
        using Cons.prems unfolding pl pl2 by simp
    qed
    then show ?thesis unfolding pl pl2 using s2(1) by (simp add: kv)
  qed
qed

lemma send_news_ends:
  assumes "\<forall>p\<in>set (cycle_plan w keywords_table (seen_articles s) s).
           short_lines (ticker_message (fst p) (included_of p))"
  shows "\<exists>r. send_news w m s = Some r \<and>
     (map fst (cycle_plan w keywords_table (seen_articles s) s) = map fst keywords_table
        \<longrightarrow> (\<exists>s'. r = Inr s'))"
proof -
  let ?s0 = "send_message w (py ''*TODAY'' @ [39] @ py ''S NEWS: '' @ escape_markdown_v2 (Some (today w)) @ py ''*'')
                 (Some (py ''MarkdownV2'')) None s"
  have pl: "cycle_plan w keywords_table (seen_articles ?s0) ?s0 =
      cycle_plan w keywords_table (seen_articles s) s"
    using cycle_plan_cong [of ?s0 s w keywords_table "seen_articles s"]
    by (simp add: send_message_def)
  from tickers_loop_ends [of w keywords_table ?s0] assms obtain r0 where
    r0: "tickers_loop w keywords_table ?s0 = Some r0"
    "map fst (cycle_plan w keywords_table (seen_articles s) s) = map fst keywords_table
        \<longrightarrow> (\<exists>s'. r0 = Inr s')"
    unfolding pl by blast
  show ?thesis
  proof (cases r0)
    case (Inl a)
    then show ?thesis using r0 by (simp add: send_news_def Let_def)
  next
    case (Inr b)
    then show ?thesis using r0 by (simp add: send_news_def Let_def)
  qed
qed

lemma url_of_shared [simp]: "url_of shared_article = shared_url"
  by (simp add: url_of_def shared_article_def)

lemma shared_plan:
  "cycle_plan shared_world keywords_table seen (startup fs) =
     [(py ''VTI'', [shared_article], new_articles seen [shared_article]),
      (py ''VWO'', [shared_article], []),
      (py ''TIP'', [shared_article], []),
      (py ''GLD'', [shared_article], []),
      (py ''VNQ'', [shared_article], []),
      (py ''VGIT'', [shared_article], [])]"
  by (simp add: keywords_table_def get_news_def shared_world_def startup_def Let_def py_def)

lemma shared_message_short:
  "length (ticker_message (py ''VTI'') [shared_article]) \<le> 3998"
  by (simp add: ticker_message_def block_of_def article_block_def escape_markdown_v2_Some
      strip_html_tags_def escape_url_def shared_article_def shared_url_def url_of_def py_def
      reserved_set_def BACKSLASH_def LESS_def GREATER_def)

lemma count_distinct:
  "distinct (map f xs) \<Longrightarrow> u \<in> f ` set xs \<Longrightarrow> length (filter (\<lambda>a. f a = u) xs) = 1"
proof (induction xs)
  case Nil
  then show ?case by simp
next
  case (Cons x xs)
  show ?case
  proof (cases "f x = u")
    case True
    then have "u \<notin> f ` set xs" using Cons.prems(1) by simp
    then have "filter (\<lambda>a. f a = u) xs = []" by (auto simp: filter_empty_conv)
    then show ?thesis using True by simp
  next
    case False
    then show ?thesis using Cons by auto
  qed
qed

lemma send_welcome_frame [simp]:
  "seen_articles (send_welcome w m s) = seen_articles s"
  "news_cache (send_welcome w m s) = news_cache s"
  "requests (send_welcome w m s) = requests s"
  by (simp_all add: send_welcome_def send_message_def)




lemma run_included_append:
  "run w c1 s0 = Some s \<Longrightarrow>
   run_included w (c1 @ c2) s0 = run_included w c1 s0 @ run_included w c2 s"
  by (induction w c1 s0 rule: run.induct) (auto split: option.splits)

lemma shared_plan_any:
  assumes "news_cache s = Map.empty" "requests s = []"
  shows "cycle_plan shared_world keywords_table seen s =
     [(py ''VTI'', [shared_article], new_articles seen [shared_article]),
      (py ''VWO'', [shared_article], []),
      (py ''TIP'', [shared_article], []),
      (py ''GLD'', [shared_article], []),
      (py ''VNQ'', [shared_article], []),
      (py ''VGIT'', [shared_article], [])]"
proof -
  have "cycle_plan shared_world keywords_table seen s =
      cycle_plan shared_world keywords_table seen (startup None)"
    by (rule cycle_plan_cong) (simp_all add: assms startup_def)
  then show ?thesis by (simp add: shared_plan)
qed

lemma shared_header_short:
  "length etf \<le> 4 \<Longrightarrow> length (ticker_message etf []) \<le> 3998"
proof -
  assume a: "length etf \<le> 4"
  have "length (concat (map (\<lambda>c. if c \<in> insert BACKSLASH reserved_set then [BACKSLASH, c] else [c]) t))
      \<le> 2 * length t" for t :: pystr
    by (induction t) auto
  from this [of etf] a show ?thesis
    by (simp add: ticker_message_def escape_markdown_v2_Some py_def)
qed

lemma shared_completes:
  assumes "news_cache s = Map.empty" "requests s = []"
  shows "\<exists>s'. send_news shared_world m s = Some (Inr s')"
proof -
  have n: "new_articles (seen_articles s) [shared_article] = [] \<or>
      new_articles (seen_articles s) [shared_article] = [shared_article]" by simp
  have sh: "short_lines (ticker_message etf [])" if "length etf \<le> 4" for etf
    using that by (intro short_lines_short shared_header_short)
  have "short_lines (ticker_message (py ''VTI'') (new_articles (seen_articles s) [shared_article]))"
    using n sh [of "py ''VTI''"] short_lines_short [OF shared_message_short]
    by (auto simp: py_def)
  then have "\<forall>p\<in>set (cycle_plan shared_world keywords_table (seen_articles s) s).
           short_lines (ticker_message (fst p) (included_of p))"
    unfolding shared_plan_any [OF assms] using sh by (simp add: py_def)
  from send_news_ends [OF this, of m] show ?thesis
    unfolding shared_plan_any [OF assms] by (auto simp: keywords_table_def)
qed

lemma startup_None [simp]:
  "news_cache (startup fs) = Map.empty" "requests (startup fs) = []"
  "seen_articles (startup None) = {}" "sent (startup fs) = []"
  by (simp_all add: startup_def load_seen_articles_def)

lemma storable_shared: "storable shared_url"
  by (simp add: storable_def shared_url_def strip_def lstrip_def rstrip_def isspace_def
      py_def LF_def CR_def)

lemma startup_shared_file:
  "seen_articles (startup (Some (shared_url @ [LF]))) = {shared_url}"
  using load_save_storable [of "[shared_url]"] storable_shared
  by (simp add: startup_def save_seen_articles_def)

lemma cycle_output_nothing:
  "cycle_output plan chunks \<Longrightarrow> \<forall>p\<in>set plan. included_of p = [] \<Longrightarrow> concat chunks = []"
  by (induction plan chunks rule: cycle_output.induct) (simp_all add: ticker_output_def)



section \<open>Properties of a dispatch cycle\<close>

text \<open>
  Claim C2. Every article the handler puts into a ticker's message is an article
  fetched for that ticker whose URL is not in \<open>seen_articles\<close> when the handler starts.
  When the handler ends, by returning or by raising, the messages it has sent are the
  header and, for every ticker reached, the stripped pieces of the message assembled from
  those articles, and nothing when there is none. The handler fails to end only in the
  splitting loop, on a message with a line of more than 3998 characters.
\<close>

theorem send_news_skips_seen:
  assumes "plan = cycle_plan w keywords_table (seen_articles s) s"
  shows "(\<forall>p\<in>set plan. \<forall>a\<in>set (included_of p).
            url_of a \<notin> seen_articles s \<and> a \<in> set (fetched_of p)) \<and>
     (case send_news w m s of
        None \<Rightarrow> \<exists>p\<in>set plan. \<not> short_lines (ticker_message (fst p) (included_of p))
      | Some r \<Rightarrow>
          \<exists>chunks. cycle_output plan chunks \<and>
            sent (outcome_state r) =
              sent s @ header_message w # map (markdown_message w) (concat chunks))"
proof
  show "\<forall>p\<in>set plan. \<forall>a\<in>set (included_of p).
            url_of a \<notin> seen_articles s \<and> a \<in> set (fetched_of p)"
    unfolding assms using cycle_plan_unseen by blast
  show "case send_news w m s of
        None \<Rightarrow> \<exists>p\<in>set plan. \<not> short_lines (ticker_message (fst p) (included_of p))
      | Some r \<Rightarrow>
          \<exists>chunks. cycle_output plan chunks \<and>
            sent (outcome_state r) =
              sent s @ header_message w # map (markdown_message w) (concat chunks)"
  proof (cases "send_news w m s")
    case None
    then have "\<not> (\<forall>p\<in>set plan. short_lines (ticker_message (fst p) (included_of p)))"
      unfolding assms using send_news_ends [of w s m] by auto
    then show ?thesis using None by simp
  next
    case (Some r)
    from send_news_plan [OF Some] show ?thesis unfolding assms using Some by auto
  qed
qed

theorem send_news_skips_seen_witness:
  "(py ''VTI'', [shared_article], [shared_article])
     \<in> set (cycle_plan shared_world keywords_table (seen_articles (startup None)) (startup None)) \<and>
   url_of shared_article \<notin> seen_articles (startup None) \<and>
   (\<exists>s' chunks. send_news shared_world getNews_command (startup None) = Some (Inr s') \<and>
      cycle_output
        (cycle_plan shared_world keywords_table (seen_articles (startup None)) (startup None))
        chunks \<and>
      sent s' = header_message shared_world # map (markdown_message shared_world) (concat chunks))"
proof -
  let ?plan = "cycle_plan shared_world keywords_table (seen_articles (startup None)) (startup None)"
  obtain s' where s': "send_news shared_world getNews_command (startup None) = Some (Inr s')"
    using shared_completes [of "startup None" getNews_command] by auto
  have p: "(py ''VTI'', [shared_article], [shared_article]) \<in> set ?plan"
    by (simp add: shared_plan)
  from send_news_skips_seen [of ?plan shared_world "startup None" getNews_command] s' p
  show ?thesis by (auto simp: outcome_state_def)
qed

text \<open>
  Claim C4, as amended. In a cycle that completes, let a URL that is not in
  \<open>seen_articles\<close> when the cycle starts occur in the lists fetched for two tickers. Then
  the first ticker in table order whose list holds the URL has an article with that URL
  in its message; exactly one article with that URL is put into the messages of the
  cycle; and the URL is in the set \<open>seen_articles\<close> that the handler saves at the end.
\<close>

theorem shared_url_sent_once:
  assumes "send_news w m s = Some (Inr s')"
    and "plan = cycle_plan w keywords_table (seen_articles s) s"
    and "i < j" and "j < length plan"
    and "u \<in> url_of ` set (fetched_of (plan ! i))"
    and "u \<in> url_of ` set (fetched_of (plan ! j))"
    and "u \<notin> seen_articles s"
  shows "map fst plan = map fst keywords_table \<and>
     (\<exists>chunks. cycle_output plan chunks \<and>
        sent s' = sent s @ header_message w # map (markdown_message w) (concat chunks)) \<and>
     (\<exists>k. k \<le> i \<and> (\<forall>l<k. u \<notin> url_of ` set (fetched_of (plan ! l))) \<and>
        u \<in> url_of ` set (fetched_of (plan ! k)) \<and>
        u \<in> url_of ` set (included_of (plan ! k))) \<and>
     length (filter (\<lambda>a. url_of a = u) (concat (map included_of plan))) = 1 \<and>
     u \<in> seen_articles s' \<and>
     seen_file s' = save_seen_articles (iteration_order w (seen_articles s'))"
proof -
  let ?P = "\<lambda>l. u \<in> url_of ` set (fetched_of (plan ! l))"
  define k where "k = (LEAST l. ?P l)"
  have pk: "?P k" unfolding k_def using assms(5) by (rule LeastI)
  have ki: "k \<le> i" unfolding k_def using assms(5) by (rule Least_le)
  have least: "\<not> ?P l" if "l < k" for l using that not_less_Least unfolding k_def by blast
  have klen: "k < length plan" using ki assms(3,4) by simp
  have inc: "u \<in> url_of ` set (included_of (plan ! k))"
    unfolding assms(2)
  proof (rule cycle_plan_first)
    show "k < length (cycle_plan w keywords_table (seen_articles s) s)"
      using klen unfolding assms(2) .
    show "u \<in> url_of ` set (fetched_of (cycle_plan w keywords_table (seen_articles s) s ! k))"
      using pk unfolding assms(2) .
    show "u \<notin> seen_articles s" by (rule assms(7))
    show "u \<notin> url_of ` set (fetched_of (cycle_plan w keywords_table (seen_articles s) s ! l))"
      if "l < k" for l using least [OF that] unfolding assms(2) .
  qed
  have "plan ! k \<in> set plan" using klen by simp
  then have inall: "u \<in> url_of ` set (concat (map included_of plan))" using inc by auto
  have "distinct (map url_of (concat (map included_of plan)))"
    unfolding assms(2) by (rule cycle_plan_distinct)
  then have one: "length (filter (\<lambda>a. url_of a = u) (concat (map included_of plan))) = 1"
    using inall by (rule count_distinct)
  from send_news_plan [OF assms(1)] obtain chunks where c:
    "cycle_output plan chunks"
    "sent s' = sent s @ header_message w # map (markdown_message w) (concat chunks)"
    "seen_articles s' = seen_articles s \<union> url_of ` set (concat (map fetched_of plan))"
    "map fst plan = map fst keywords_table"
    "seen_file s' = save_seen_articles (iteration_order w (seen_articles s'))"
    unfolding assms(2) by (auto simp: outcome_state_def)
  have "u \<in> url_of ` set (concat (map fetched_of plan))"
    using pk \<open>plan ! k \<in> set plan\<close> by auto
  then have "u \<in> seen_articles s'" using c(3) by simp
  then show ?thesis using c(1,2,4,5) ki least pk inc one by blast
qed

theorem shared_url_sent_once_witness:
  "length (cycle_plan shared_world keywords_table (seen_articles (startup None)) (startup None)) = 6 \<and>
   cycle_plan shared_world keywords_table (seen_articles (startup None)) (startup None) ! 0
     = (py ''VTI'', [shared_article], [shared_article]) \<and>
   cycle_plan shared_world keywords_table (seen_articles (startup None)) (startup None) ! 1
     = (py ''VWO'', [shared_article], []) \<and>
   shared_url \<notin> seen_articles (startup None) \<and>
   length (filter (\<lambda>a. url_of a = shared_url)
     (concat (map included_of
        (cycle_plan shared_world keywords_table (seen_articles (startup None)) (startup None)))))
     = 1 \<and>
   (\<exists>s'. send_news shared_world getNews_command (startup None) = Some (Inr s') \<and>
      shared_url \<in> seen_articles s' \<and>
      seen_file s' = save_seen_articles (iteration_order shared_world (seen_articles s')))"
proof -
  let ?plan = "cycle_plan shared_world keywords_table (seen_articles (startup None)) (startup None)"
  obtain s' where s': "send_news shared_world getNews_command (startup None) = Some (Inr s')"
    using shared_completes [of "startup None" getNews_command] by auto
  have p: "length ?plan = 6" "?plan ! 0 = (py ''VTI'', [shared_article], [shared_article])"
    "?plan ! 1 = (py ''VWO'', [shared_article], [])"
    by (simp_all add: shared_plan)
  have h: "(0::nat) < 1" "1 < length ?plan"
    "shared_url \<in> url_of ` set (fetched_of (?plan ! 0))"
    "shared_url \<in> url_of ` set (fetched_of (?plan ! 1))"
    "shared_url \<notin> seen_articles (startup None)"
    by (simp_all add: shared_plan)
  from shared_url_sent_once [OF s' refl h] s' p h(5) show ?thesis by blast
qed

text \<open>
  Claim C4 as stated fails for a URL that is already in \<open>seen_articles\<close>. With the URL
  of the article in \<open>SEEN_FILE\<close> at startup, all six tickers fetch the article, no ticker
  includes it, and the header is the only message sent.
\<close>

theorem shared_url_seen_counterexample:
  "seen_articles (startup (Some (shared_url @ [LF]))) = {shared_url} \<and>
   cycle_plan shared_world keywords_table {shared_url} (startup (Some (shared_url @ [LF]))) =
     [(py ''VTI'', [shared_article], []), (py ''VWO'', [shared_article], []),
      (py ''TIP'', [shared_article], []), (py ''GLD'', [shared_article], []),
      (py ''VNQ'', [shared_article], []), (py ''VGIT'', [shared_article], [])] \<and>
   (\<exists>s'. send_news shared_world getNews_command (startup (Some (shared_url @ [LF])))
            = Some (Inr s') \<and>
      sent s' = [header_message shared_world])"
proof -
  let ?s = "startup (Some (shared_url @ [LF]))"
  have pl: "cycle_plan shared_world keywords_table {shared_url} ?s =
     [(py ''VTI'', [shared_article], []), (py ''VWO'', [shared_article], []),
      (py ''TIP'', [shared_article], []), (py ''GLD'', [shared_article], []),
      (py ''VNQ'', [shared_article], []), (py ''VGIT'', [shared_article], [])]"
    by (simp add: shared_plan)
  obtain s' where s': "send_news shared_world getNews_command ?s = Some (Inr s')"
    using shared_completes [of ?s getNews_command] by auto
  from send_news_plan [OF s'] obtain chunks where
    c: "cycle_output (cycle_plan shared_world keywords_table {shared_url} ?s) chunks"
    "sent s' = sent ?s @ header_message shared_world
        # map (markdown_message shared_world) (concat chunks)"
    by (auto simp: outcome_state_def startup_shared_file)
  have "concat chunks = []"
    using c(1) by (rule cycle_output_nothing) (simp add: pl)
  then have "sent s' = [header_message shared_world]" using c(2) by simp
  with s' pl startup_shared_file show ?thesis by blast
qed



text \<open>
  Claim C10. Neither handler reads the incoming message: on two incoming messages,
  in the same world and state, \<open>send_welcome\<close> gives the same state and \<open>send_news\<close> the
  same outcome, hence the same messages sent. The message \<open>send_welcome\<close> sends, and every
  message \<open>send_news\<close> has sent when it ends, is addressed to \<open>CHAT_ID\<close>.
\<close>

theorem handlers_ignore_message:
  "send_welcome w m1 s = send_welcome w m2 s \<and>
   send_news w m1 s = send_news w m2 s \<and>
   (\<exists>x. sent (send_welcome w m1 s) = sent s @ [x] \<and> chat_id x = CHAT_ID w) \<and>
   (case send_news w m1 s of
      None \<Rightarrow> True
    | Some r \<Rightarrow>
        \<exists>rest. sent (outcome_state r) = sent s @ header_message w # rest \<and>
          (\<forall>x\<in>set (header_message w # rest). chat_id x = CHAT_ID w))"
proof (intro conjI)
  show "send_welcome w m1 s = send_welcome w m2 s" by (simp add: send_welcome_def)
  show "send_news w m1 s = send_news w m2 s" by (simp add: send_news_def)
  show "\<exists>x. sent (send_welcome w m1 s) = sent s @ [x] \<and> chat_id x = CHAT_ID w"
    by (simp add: send_welcome_def send_message_def)
  show "case send_news w m1 s of
      None \<Rightarrow> True
    | Some r \<Rightarrow>
        \<exists>rest. sent (outcome_state r) = sent s @ header_message w # rest \<and>
          (\<forall>x\<in>set (header_message w # rest). chat_id x = CHAT_ID w)"
  proof (cases "send_news w m1 s")
    case None
    then show ?thesis by simp
  next
    case (Some r)
    from send_news_plan [OF Some] obtain chunks where
      c: "sent (outcome_state r) =
          sent s @ header_message w # map (markdown_message w) (concat chunks)" by blast
    have "\<forall>x\<in>set (header_message w # map (markdown_message w) (concat chunks)).
        chat_id x = CHAT_ID w"
      by (auto simp: header_message_def markdown_message_def)
    with c Some show ?thesis by auto
  qed
qed

theorem handlers_ignore_message_witness:
  "send_welcome shared_world getNews_command (startup None)
     = send_welcome shared_world start_command (startup None) \<and>
   send_news shared_world getNews_command (startup None)
     = send_news shared_world start_command (startup None) \<and>
   (\<exists>r rest. send_news shared_world getNews_command (startup None) = Some r \<and>
      sent (outcome_state r) = header_message shared_world # rest \<and>
      (\<forall>x\<in>set (header_message shared_world # rest). chat_id x = Some (py ''1'')))"
proof -
  obtain s' where s': "send_news shared_world getNews_command (startup None) = Some (Inr s')"
    using shared_completes [of "startup None" getNews_command] by auto
  have c: "CHAT_ID shared_world = Some (py ''1'')" by (simp add: shared_world_def)
  let ?s = "startup None"
  note t = handlers_ignore_message [of shared_world getNews_command ?s start_command]
  from t have w: "send_welcome shared_world getNews_command ?s
      = send_welcome shared_world start_command ?s" by (rule conjunct1)
  from t have n: "send_news shared_world getNews_command ?s
      = send_news shared_world start_command ?s" by blast
  from t s' obtain rest where
    "sent (outcome_state (Inr s')) = sent ?s @ header_message shared_world # rest"
    "\<forall>x\<in>set (header_message shared_world # rest). chat_id x = CHAT_ID shared_world"
    by auto
  then have "sent (outcome_state (Inr s')) = header_message shared_world # rest \<and>
      (\<forall>x\<in>set (header_message shared_world # rest). chat_id x = Some (py ''1''))"
    using c by simp
  with s' w n show ?thesis by blast
qed

end
